theory Spec2Isabelle
  imports Main "HOL-Library.Word"
begin

section \<open>The game engine of game.c\<close>

text \<open>
  The engine keeps a board of squares, an array of players and a four-element scratch
  array. All counters are unsigned machine integers: \<open>uint32_t\<close> is \<open>32 word\<close> and
  \<open>uint64_t\<close> is \<open>64 word\<close>, so that \<open>++\<close>, \<open>--\<close>, \<open>+=\<close> and \<open>-=\<close> wrap around as
  they do in C.
\<close>

type_synonym uint32_t = "32 word"
type_synonym uint64_t = "64 word"

text \<open>\<open>struct pair\<close>: one square of the board.\<close>

record pair_t =
  player :: uint32_t
  parent_id :: uint32_t

text \<open>\<open>struct player\<close>.\<close>

record player_t =
  boundary :: uint64_t
  busy_areas :: uint32_t
  completed_moves :: uint64_t

text \<open>
  \<open>struct game\<close>. The board \<open>pair_t **\<close> is a store indexed by column and row:
  \<open>board g i j\<close> is \<open>g->board[i][j]\<close>. The source allocates \<open>width\<close> columns of
  \<open>height\<close> squares and tests every index against \<open>width\<close> and \<open>height\<close> before it
  reads or writes a square. The players are an array of \<open>players_num\<close> records and
  \<open>neighbours\<close> is an array of four tags.
\<close>

record game_t =
  board :: "nat \<Rightarrow> nat \<Rightarrow> pair_t"
  players :: "player_t list"
  neighbours :: "uint32_t list"
  width :: uint32_t
  height :: uint32_t
  areas :: uint32_t
  players_num :: uint32_t

text \<open>
  An access outside an array is undefined behaviour in C. The only array index that comes
  from a caller's argument without a test of its own is \<open>player - 1\<close> in
  \<open>g->players[player - 1]\<close> (and \<open>stranger - 1\<close>, read from the board); such an access
  is the outcome \<open>OutOfBounds\<close> here.
\<close>

datatype fault = OutOfBounds

definition MAX_PLAYERS :: uint32_t where
  "MAX_PLAYERS = 35"

text \<open>
  \<open>game_new\<close>: \<open>NULL\<close> is \<open>None\<close>. \<open>calloc\<close> zeroes the players, the scratch array
  and every square. Allocation is taken to succeed.
\<close>

definition game_new :: "uint32_t \<Rightarrow> uint32_t \<Rightarrow> uint32_t \<Rightarrow> uint32_t \<Rightarrow> game_t option" where
  "game_new w h pls ars =
     (if w = 0 \<or> h = 0 \<or> pls = 0 \<or> ars = 0 then None
      else if pls > MAX_PLAYERS then None
      else Some \<lparr>board = (\<lambda>i j. \<lparr>player = 0, parent_id = 0\<rparr>),
                 players = replicate (unat pls) \<lparr>boundary = 0, busy_areas = 0, completed_moves = 0\<rparr>,
                 neighbours = replicate 4 0,
                 width = w, height = h, areas = ars, players_num = pls\<rparr>)"

definition valid_coordinate :: "uint32_t \<Rightarrow> uint32_t \<Rightarrow> uint32_t \<Rightarrow> uint32_t \<Rightarrow> bool" where
  "valid_coordinate w h x y = (\<not> (x \<ge> w \<or> y \<ge> h))"

text \<open>
  \<open>isSurrounded\<close> takes its arguments as \<open>uint64_t\<close>; the calls to
  \<open>valid_coordinate\<close> convert them back to \<open>uint32_t\<close>. Each \<open>around++\<close> is one summand.
\<close>

definition isSurrounded ::
  "(nat \<Rightarrow> nat \<Rightarrow> pair_t) \<Rightarrow> uint64_t \<Rightarrow> uint64_t \<Rightarrow> uint64_t \<Rightarrow> uint64_t \<Rightarrow> uint64_t \<Rightarrow> uint32_t" where
  "isSurrounded b w h pl x y =
     (if x > 0 \<and> valid_coordinate (ucast w) (ucast h) (ucast (x - 1)) (ucast y)
         \<and> ucast (player (b (unat (x - 1)) (unat y))) = pl then 1 else 0)
   + (if x + 1 < w \<and> valid_coordinate (ucast w) (ucast h) (ucast (x + 1)) (ucast y)
         \<and> ucast (player (b (unat (x + 1)) (unat y))) = pl then 1 else 0)
   + (if y > 0 \<and> valid_coordinate (ucast w) (ucast h) (ucast x) (ucast (y - 1))
         \<and> ucast (player (b (unat x) (unat (y - 1)))) = pl then 1 else 0)
   + (if y + 1 < h \<and> valid_coordinate (ucast w) (ucast h) (ucast x) (ucast (y + 1))
         \<and> ucast (player (b (unat x) (unat (y + 1)))) = pl then 1 else 0)"

definition common_free_fields ::
  "(nat \<Rightarrow> nat \<Rightarrow> pair_t) \<Rightarrow> uint32_t \<Rightarrow> uint32_t \<Rightarrow> uint32_t \<Rightarrow> uint32_t \<Rightarrow> uint32_t \<Rightarrow> uint32_t" where
  "common_free_fields b w h pl x y =
     (if x > 1 \<and> valid_coordinate w h (x - 2) y
         \<and> player (b (unat (x - 2)) (unat y)) = pl then 1 else 0)
   + (if x + 2 < w \<and> valid_coordinate w h (x + 2) y
         \<and> player (b (unat (x + 2)) (unat y)) = pl then 1 else 0)
   + (if y > 1 \<and> valid_coordinate w h x (y - 2)
         \<and> player (b (unat x) (unat (y - 2))) = pl then 1 else 0)
   + (if y + 2 < h \<and> valid_coordinate w h x (y + 2)
         \<and> player (b (unat x) (unat (y + 2))) = pl then 1 else 0)"

text \<open>Reading and writing \<open>g->board[x][y]\<close> and \<open>g->players[player - 1]\<close>.\<close>

definition cell :: "game_t \<Rightarrow> uint32_t \<Rightarrow> uint32_t \<Rightarrow> pair_t" where
  "cell g x y = board g (unat x) (unat y)"

definition set_cell :: "game_t \<Rightarrow> uint32_t \<Rightarrow> uint32_t \<Rightarrow> pair_t \<Rightarrow> game_t" where
  "set_cell g x y c = g\<lparr>board := (board g)(unat x := (board g (unat x))(unat y := c))\<rparr>"

definition the_player :: "game_t \<Rightarrow> uint32_t \<Rightarrow> player_t" where
  "the_player g pl = players g ! unat (pl - 1)"

definition set_player :: "game_t \<Rightarrow> uint32_t \<Rightarrow> player_t \<Rightarrow> game_t" where
  "set_player g pl r = g\<lparr>players := (players g)[unat (pl - 1) := r]\<rparr>"

definition update_strangers_boundary ::
  "game_t \<Rightarrow> uint32_t \<Rightarrow> uint32_t \<Rightarrow> uint32_t \<Rightarrow> fault + game_t" where
  "update_strangers_boundary g pl x y =
     (let stranger = player (cell g x y) in
      if stranger = 0 then Inr g
      else if valid_coordinate (width g) (height g) x y \<and> stranger \<noteq> pl then
        (if unat (stranger - 1) < length (players g)
         then Inr (set_player g stranger
                     ((the_player g stranger)\<lparr>boundary := boundary (the_player g stranger) - 1\<rparr>))
         else Inl OutOfBounds)
      else Inr g)"

definition update_strangers :: "game_t \<Rightarrow> uint32_t \<Rightarrow> uint32_t \<Rightarrow> uint32_t \<Rightarrow> fault + game_t" where
  "update_strangers g pl x y =
     (case (if x > 0 then update_strangers_boundary g pl (x - 1) y else Inr g) of
        Inl e \<Rightarrow> Inl e
      | Inr g1 \<Rightarrow>
     (case (if x + 1 < width g1 then update_strangers_boundary g1 pl (x + 1) y else Inr g1) of
        Inl e \<Rightarrow> Inl e
      | Inr g2 \<Rightarrow>
     (case (if y > 0 then update_strangers_boundary g2 pl x (y - 1) else Inr g2) of
        Inl e \<Rightarrow> Inl e
      | Inr g3 \<Rightarrow>
        (if y + 1 < height g3 then update_strangers_boundary g3 pl x (y + 1) else Inr g3))))"

definition diagonal_neighbours :: "game_t \<Rightarrow> uint32_t \<Rightarrow> uint32_t \<Rightarrow> uint32_t \<Rightarrow> uint32_t" where
  "diagonal_neighbours g pl x y =
     (if x > 0 \<and> y > 0 \<and> player (cell g (x - 1) (y - 1)) = pl
      then (if player (cell g x (y - 1)) = 0 then 1 else 0)
         + (if player (cell g (x - 1) y) = 0 then 1 else 0)
      else 0)
   + (if x + 1 < width g \<and> y + 1 < height g \<and> player (cell g (x + 1) (y + 1)) = pl
      then (if player (cell g x (y + 1)) = 0 then 1 else 0)
         + (if player (cell g (x + 1) y) = 0 then 1 else 0)
      else 0)"

text \<open>
  \<open>different_areas\<close>: the inner loop over \<open>j\<close> runs while \<open>j < 4 && areas < around\<close>,
  the outer loop over \<open>i\<close> runs while \<open>i < 3\<close> and starts the inner one at \<open>j = i + 1\<close>.
\<close>

function different_areas_j :: "uint32_t list \<Rightarrow> uint32_t \<Rightarrow> nat \<Rightarrow> nat \<Rightarrow> uint32_t \<Rightarrow> uint32_t" where
  "different_areas_j nb around i j ars =
     (if j < 4 \<and> ars < around
      then different_areas_j nb around i (j + 1)
             (if nb ! i \<noteq> 0 \<and> nb ! j \<noteq> 0 \<and> nb ! i \<noteq> nb ! j then ars + 1 else ars)
      else ars)"
  by pat_completeness auto
termination
  by (relation "measure (\<lambda>(nb, around, i, j, ars). 4 - j)") auto

function different_areas_i :: "uint32_t list \<Rightarrow> uint32_t \<Rightarrow> nat \<Rightarrow> uint32_t \<Rightarrow> uint32_t" where
  "different_areas_i nb around i ars =
     (if i < 3
      then different_areas_i nb around (i + 1) (different_areas_j nb around i (i + 1) ars)
      else ars)"
  by pat_completeness auto
termination
  by (relation "measure (\<lambda>(nb, around, i, ars). 3 - i)") auto

definition different_areas :: "uint32_t list \<Rightarrow> uint32_t \<Rightarrow> uint32_t" where
  "different_areas nb around =
     (if around = 4 then around
      else (let ars = different_areas_i nb around 0 0 in if ars = 0 then 1 else ars))"

text \<open>
  \<open>BFS\<close> calls itself four times in a row and uses no result of a call, so a run of it is
  the list of calls still to be made: \<open>BFS_calls g id pl cs\<close> makes the calls \<open>cs\<close> one
  after the other, and a call that relabels its square puts its four own calls in front of
  the pending ones. The coordinates \<open>x - 1\<close> and \<open>y - 1\<close> wrap around at 0 and are then
  refused by \<open>valid_coordinate\<close>.
\<close>

definition unlabelled :: "game_t \<Rightarrow> uint32_t \<Rightarrow> uint32_t \<Rightarrow> (nat \<times> nat) set" where
  "unlabelled g ident pl =
     {(i, j). i < unat (width g) \<and> j < unat (height g)
        \<and> player (board g i j) = pl \<and> parent_id (board g i j) \<noteq> ident}"

function BFS_calls :: "game_t \<Rightarrow> uint32_t \<Rightarrow> uint32_t \<Rightarrow> (uint32_t \<times> uint32_t) list \<Rightarrow> game_t" where
  "BFS_calls g ident pl [] = g"
| "BFS_calls g ident pl ((x, y) # cs) =
     (if \<not> valid_coordinate (width g) (height g) x y then BFS_calls g ident pl cs
      else if player (cell g x y) = pl \<and> parent_id (cell g x y) \<noteq> ident
      then BFS_calls (set_cell g x y ((cell g x y)\<lparr>parent_id := ident\<rparr>)) ident pl
             ((x - 1, y) # (x + 1, y) # (x, y - 1) # (x, y + 1) # cs)
      else BFS_calls g ident pl cs)"
  by pat_completeness auto


lemma finite_unlabelled: "finite (unlabelled g ident pl)"
proof -
  have "unlabelled g ident pl \<subseteq> {..<unat (width g)} \<times> {..<unat (height g)}"
    by (auto simp: unlabelled_def)
  then show ?thesis
    by (rule finite_subset) simp
qed

lemma unlabelled_relabel:
  assumes "valid_coordinate (width g) (height g) x y"
    and "player (cell g x y) = pl" and "parent_id (cell g x y) \<noteq> ident"
  shows "unlabelled (set_cell g x y ((cell g x y)\<lparr>parent_id := ident\<rparr>)) ident pl
         \<subset> unlabelled g ident pl"
proof -
  have in_old: "(unat x, unat y) \<in> unlabelled g ident pl"
    using assms by (simp add: unlabelled_def valid_coordinate_def cell_def word_less_nat_alt not_le)
  have not_new: "(unat x, unat y) \<notin> unlabelled (set_cell g x y ((cell g x y)\<lparr>parent_id := ident\<rparr>)) ident pl"
    by (simp add: unlabelled_def set_cell_def)
  have sub: "unlabelled (set_cell g x y ((cell g x y)\<lparr>parent_id := ident\<rparr>)) ident pl
         \<subseteq> unlabelled g ident pl"
    by (auto simp: unlabelled_def set_cell_def split: if_splits)
  from in_old not_new sub show ?thesis by blast
qed

lemma card_unlabelled_relabel:
  assumes "valid_coordinate (width g) (height g) x y"
    and "player (cell g x y) = pl" and "parent_id (cell g x y) \<noteq> ident"
  shows "card (unlabelled (set_cell g x y ((cell g x y)\<lparr>parent_id := ident\<rparr>)) ident pl)
         < card (unlabelled g ident pl)"
  using assms by (intro psubset_card_mono finite_unlabelled unlabelled_relabel)

termination BFS_calls
  by (relation "measures [\<lambda>(g, ident, pl, cs). card (unlabelled g ident pl),
                          \<lambda>(g, ident, pl, cs). length cs]")
     (simp_all add: card_unlabelled_relabel)

declare BFS_calls.simps [simp del]
declare different_areas_j.simps [simp del]
declare different_areas_i.simps [simp del]

definition BFS :: "game_t \<Rightarrow> uint32_t \<Rightarrow> uint32_t \<Rightarrow> uint32_t \<Rightarrow> uint32_t \<Rightarrow> game_t" where
  "BFS g ident pl x y = BFS_calls g ident pl [(x, y)]"

definition set_id :: "uint32_t list \<Rightarrow> uint32_t" where
  "set_id nb =
     (if nb ! 0 \<noteq> 0 then nb ! 0
      else if nb ! 1 \<noteq> 0 then nb ! 1
      else if nb ! 2 \<noteq> 0 then nb ! 2
      else if nb ! 3 \<noteq> 0 then nb ! 3
      else 0)"

definition find_neighbours :: "game_t \<Rightarrow> uint32_t \<Rightarrow> uint32_t \<Rightarrow> uint32_t \<Rightarrow> game_t" where
  "find_neighbours g pl x y =
     (let g0 = g\<lparr>neighbours := (neighbours g)
                [0 := (if x > 0 \<and> player (cell g (x - 1) y) = pl
                       then parent_id (cell g (x - 1) y) else 0)]\<rparr>;
          g1 = g0\<lparr>neighbours := (neighbours g0)
                [1 := (if x + 1 < width g0 \<and> player (cell g0 (x + 1) y) = pl
                       then parent_id (cell g0 (x + 1) y) else 0)]\<rparr>;
          g2 = g1\<lparr>neighbours := (neighbours g1)
                [2 := (if y > 0 \<and> player (cell g1 x (y - 1)) = pl
                       then parent_id (cell g1 x (y - 1)) else 0)]\<rparr>
      in g2\<lparr>neighbours := (neighbours g2)
                [3 := (if y + 1 < height g2 \<and> player (cell g2 x (y + 1)) = pl
                       then parent_id (cell g2 x (y + 1)) else 0)]\<rparr>)"

text \<open>
  The body of \<open>game_move\<close> in four parts, named after the comments of the source: the
  block under \<open>update game's info\<close> (which the island branch repeats word for word), the
  island branch, the loop under \<open>adjust to existing area\<close> and the branch under
  \<open>union at least 2 areas\<close>.
\<close>

definition update_info :: "game_t \<Rightarrow> uint32_t \<Rightarrow> uint32_t \<Rightarrow> uint32_t \<Rightarrow> fault + game_t" where
  "update_info g pl x y =
     (let g1 = set_player g pl ((the_player g pl)
                 \<lparr>completed_moves := completed_moves (the_player g pl) + 1\<rparr>);
          g2 = set_player g1 pl ((the_player g1 pl)
                 \<lparr>boundary := boundary (the_player g1 pl)
                    + ucast (isSurrounded (board g1) (ucast (width g1)) (ucast (height g1))
                               0 (ucast x) (ucast y))\<rparr>);
          g3 = set_player g2 pl ((the_player g2 pl)
                 \<lparr>boundary := boundary (the_player g2 pl)
                    - ucast (common_free_fields (board g2) (width g2) (height g2) pl x y)\<rparr>);
          g4 = set_player g3 pl ((the_player g3 pl)
                 \<lparr>boundary := boundary (the_player g3 pl)
                    - ucast (diagonal_neighbours g3 pl x y)\<rparr>)
      in update_strangers g4 pl x y)"

definition island :: "game_t \<Rightarrow> uint32_t \<Rightarrow> uint32_t \<Rightarrow> uint32_t \<Rightarrow> game_t" where
  "island g pl x y =
     (let g1 = set_cell g x y ((cell g x y)\<lparr>player := pl\<rparr>);
          g2 = set_player g1 pl ((the_player g1 pl)
                 \<lparr>busy_areas := busy_areas (the_player g1 pl) + 1\<rparr>)
      in set_cell g2 x y ((cell g2 x y)\<lparr>parent_id := busy_areas (the_player g2 pl)\<rparr>))"

function adjust :: "game_t \<Rightarrow> uint32_t \<Rightarrow> uint32_t \<Rightarrow> uint32_t \<Rightarrow> nat \<Rightarrow> game_t" where
  "adjust g pl x y i =
     (if i < 4 then
        (if neighbours g ! i \<noteq> 0 then
           (let g1 = set_cell g x y ((cell g x y)\<lparr>player := pl\<rparr>);
                g2 = set_cell g1 x y ((cell g1 x y)\<lparr>parent_id := neighbours g1 ! i\<rparr>)
            in set_player g2 pl ((the_player g2 pl)\<lparr>boundary := boundary (the_player g2 pl) - 1\<rparr>))
         else adjust g pl x y (i + 1))
      else g)"
  by pat_completeness auto
termination
  by (relation "measure (\<lambda>(g, pl, x, y, i). 4 - i)") auto

declare adjust.simps [simp del]

definition union_areas :: "game_t \<Rightarrow> uint32_t \<Rightarrow> uint32_t \<Rightarrow> uint32_t \<Rightarrow> uint32_t \<Rightarrow> game_t" where
  "union_areas g pl x y around =
     (let g1 = set_cell g x y ((cell g x y)\<lparr>player := pl\<rparr>);
          g2 = set_cell g1 x y ((cell g1 x y)\<lparr>parent_id := set_id (neighbours g1)\<rparr>);
          g3 = set_player g2 pl ((the_player g2 pl)
                 \<lparr>busy_areas := busy_areas (the_player g2 pl)
                    - (different_areas (neighbours g2) around - 1)\<rparr>);
          g4 = set_player g3 pl ((the_player g3 pl)\<lparr>boundary := boundary (the_player g3 pl) - 1\<rparr>);
          g5 = BFS g4 (parent_id (cell g4 x y)) pl (x - 1) y;
          g6 = BFS g5 (parent_id (cell g5 x y)) pl (x + 1) y;
          g7 = BFS g6 (parent_id (cell g6 x y)) pl x (y - 1)
      in BFS g7 (parent_id (cell g7 x y)) pl x (y + 1))"

text \<open>
  \<open>game_move\<close> returns the \<open>bool\<close> of the source together with the game after the
  call. The tests \<open>g == NULL\<close> and \<open>g->players == NULL\<close> have no counterpart: a
  \<open>game_t\<close> here always exists. After the three tests every path of the source reads
  or writes \<open>g->players[player - 1]\<close> (lines 312, 337, 352 and 365); for \<open>player = 0\<close>
  the index wraps around to \<open>2^32 - 1\<close>, beyond the at most 35 records.
\<close>

definition game_move :: "game_t \<Rightarrow> uint32_t \<Rightarrow> uint32_t \<Rightarrow> uint32_t \<Rightarrow> fault + (bool \<times> game_t)" where
  "game_move g pl x y =
     (if players_num g < pl then Inr (False, g)
      else if \<not> valid_coordinate (width g) (height g) x y then Inr (False, g)
      else if player (cell g x y) \<noteq> 0 then Inr (False, g)
      else if \<not> unat (pl - 1) < length (players g) then Inl OutOfBounds
      else
        (let around = isSurrounded (board g) (ucast (width g)) (ucast (height g))
                        (ucast pl) (ucast x) (ucast y)
         in if around = 0 then
              (if busy_areas (the_player g pl) = areas g then Inr (False, g)
               else (case update_info (island g pl x y) pl x y of
                       Inl e \<Rightarrow> Inl e
                     | Inr g' \<Rightarrow> Inr (True, g')))
            else
              (let g1 = find_neighbours g pl x y;
                   g2 = (if different_areas (neighbours g1) around = 1
                         then adjust
                                (if around > 1
                                 then set_player g1 pl ((the_player g1 pl)
                                        \<lparr>busy_areas := busy_areas (the_player g1 pl) - (around - 1)\<rparr>)
                                 else g1)
                                pl x y 0
                         else union_areas g1 pl x y around)
               in (case update_info g2 pl x y of
                     Inl e \<Rightarrow> Inl e
                   | Inr g' \<Rightarrow> Inr (True, g')))))"

definition game_busy_fields :: "game_t \<Rightarrow> uint32_t \<Rightarrow> fault + uint64_t" where
  "game_busy_fields g pl =
     (if players_num g < pl then Inr 0
      else if \<not> unat (pl - 1) < length (players g) then Inl OutOfBounds
      else Inr (completed_moves (the_player g pl)))"

text \<open>The loop of \<open>game_free_fields\<close> over \<open>p\<close>, with \<open>busy_fields_all\<close> as accumulator.\<close>

lemma busy_fields_all_measure:
  "p < (n :: uint32_t) \<Longrightarrow> unat n - unat (p + 1) < unat n - unat p"
  by unat_arith

function busy_fields_all :: "game_t \<Rightarrow> uint32_t \<Rightarrow> uint64_t \<Rightarrow> uint64_t" where
  "busy_fields_all g p acc =
     (if p < players_num g
      then busy_fields_all g (p + 1) (acc + completed_moves (players g ! unat p))
      else acc)"
  by pat_completeness auto
termination
  by (relation "measure (\<lambda>(g, p, acc). unat (players_num g) - unat p)")
     (simp_all add: busy_fields_all_measure)

declare busy_fields_all.simps [simp del]

definition game_free_fields :: "game_t \<Rightarrow> uint32_t \<Rightarrow> fault + uint64_t" where
  "game_free_fields g pl =
     (if players_num g < pl then Inr 0
      else if \<not> unat (pl - 1) < length (players g) then Inl OutOfBounds
      else (let player_tmp = the_player g pl in
            if busy_areas player_tmp = areas g then Inr (boundary player_tmp)
            else (let all_fields = ucast (height g) * ucast (width g)
                  in Inr (all_fields - busy_fields_all g 0 0))))"


section \<open>The vocabulary of the specification\<close>

text \<open>
  The specification describes the value of \<open>different_areas\<close> twice: as the number of
  distinct nonzero tags (\<open>distinct_tags\<close>), and as the number of slot pairs, taken in
  the order \<open>{0,1},{0,2},{0,3},{1,2},{1,3},{2,3}\<close>, whose two tags are nonzero and
  differ, capped at \<open>around\<close> and replaced by 1 when it is 0 (\<open>pair_count\<close>).
  \<open>count_step\<close> is one step of that count with the cap applied as it goes.
\<close>

definition slot_pairs :: "(nat \<times> nat) list" where
  "slot_pairs = [(0, 1), (0, 2), (0, 3), (1, 2), (1, 3), (2, 3)]"

definition differ :: "uint32_t list \<Rightarrow> nat \<times> nat \<Rightarrow> bool" where
  "differ nb = (\<lambda>(i, j). nb ! i \<noteq> 0 \<and> nb ! j \<noteq> 0 \<and> nb ! i \<noteq> nb ! j)"

definition pair_count :: "uint32_t list \<Rightarrow> uint32_t \<Rightarrow> nat" where
  "pair_count nb around =
     (let k = min (length (filter (differ nb) slot_pairs)) (unat around)
      in if k = 0 then 1 else k)"

definition distinct_tags :: "uint32_t list \<Rightarrow> nat" where
  "distinct_tags nb = card (set nb - {0})"

definition count_step :: "uint32_t list \<Rightarrow> uint32_t \<Rightarrow> uint32_t \<Rightarrow> nat \<times> nat \<Rightarrow> uint32_t" where
  "count_step nb around k = (\<lambda>(i, j).
     if k < around \<and> nb ! i \<noteq> 0 \<and> nb ! j \<noteq> 0 \<and> nb ! i \<noteq> nb ! j then k + 1 else k)"

text \<open>
  A game as \<open>game_new\<close> builds it and \<open>game_move\<close> keeps it: the array of players has
  \<open>players_num\<close> records and every square of the board holds 0 or the number of a player.
\<close>

definition wf_game :: "game_t \<Rightarrow> bool" where
  "wf_game g \<longleftrightarrow>
     length (players g) = unat (players_num g) \<and>
     (\<forall>i j. i < unat (width g) \<longrightarrow> j < unat (height g) \<longrightarrow> player (board g i j) \<le> players_num g)"

text \<open>The games that calls of \<open>game_move\<close> reach from a new game.\<close>

inductive reachable :: "game_t \<Rightarrow> bool" where
  fresh: "game_new w h pls ars = Some g \<Longrightarrow> reachable g"
| moved: "reachable g \<Longrightarrow> game_move g pl x y = Inr (r, g') \<Longrightarrow> reachable g'"

text \<open>A sequence of calls of \<open>game_move\<close>, each with player, column and row.\<close>

fun game_moves :: "game_t \<Rightarrow> (uint32_t \<times> uint32_t \<times> uint32_t) list \<Rightarrow> fault + game_t" where
  "game_moves g [] = Inr g"
| "game_moves g ((pl, x, y) # ms) =
     (case game_move g pl x y of Inl e \<Rightarrow> Inl e | Inr (r, g') \<Rightarrow> game_moves g' ms)"

text \<open>
  The squares of the board next to \<open>(x, y)\<close> in a row or a column, and how many of them
  hold \<open>q\<close> (with \<open>q = 0\<close>: how many are empty).
\<close>

definition orthogonal :: "game_t \<Rightarrow> uint32_t \<Rightarrow> uint32_t \<Rightarrow> (nat \<times> nat) list" where
  "orthogonal g x y =
     (if 0 < unat x then [(unat x - 1, unat y)] else [])
   @ (if unat x + 1 < unat (width g) then [(unat x + 1, unat y)] else [])
   @ (if 0 < unat y then [(unat x, unat y - 1)] else [])
   @ (if unat y + 1 < unat (height g) then [(unat x, unat y + 1)] else [])"

definition owned_around :: "game_t \<Rightarrow> uint32_t \<Rightarrow> uint32_t \<Rightarrow> uint32_t \<Rightarrow> nat" where
  "owned_around g q x y = length (filter (\<lambda>(i, j). player (board g i j) = q) (orthogonal g x y))"

text \<open>The empty squares of the board and the pawns the players count as set.\<close>

definition empty_cells :: "game_t \<Rightarrow> nat" where
  "empty_cells g =
     length (filter (\<lambda>(i, j). player (board g i j) = 0)
       (List.product [0..<unat (width g)] [0..<unat (height g)]))"

definition placed_total :: "game_t \<Rightarrow> nat" where
  "placed_total g = sum_list (map (\<lambda>p. unat (completed_moves p)) (players g))"

text \<open>
  Three notions for the proofs: two games that differ in their players' records only; a
  board whose owners all index the array of players; and the game after the first four
  statements of the block under \<open>update game's info\<close>, which change the record of the
  moving player only.
\<close>

definition same_frame :: "game_t \<Rightarrow> game_t \<Rightarrow> bool" where
  "same_frame g g' \<longleftrightarrow>
     board g' = board g \<and> neighbours g' = neighbours g \<and> width g' = width g \<and>
     height g' = height g \<and> areas g' = areas g \<and> players_num g' = players_num g \<and>
     length (players g') = length (players g)"

definition owners_ok :: "game_t \<Rightarrow> bool" where
  "owners_ok g \<longleftrightarrow>
     (\<forall>i j. i < unat (width g) \<longrightarrow> j < unat (height g) \<longrightarrow> player (board g i j) \<noteq> 0 \<longrightarrow>
        unat (player (board g i j) - 1) < length (players g))"

definition info_state :: "game_t \<Rightarrow> uint32_t \<Rightarrow> uint32_t \<Rightarrow> uint32_t \<Rightarrow> game_t" where
  "info_state g pl x y =
     set_player g pl ((the_player g pl)
       \<lparr>completed_moves := completed_moves (the_player g pl) + 1,
        boundary := boundary (the_player g pl) + of_nat (owned_around g 0 x y)
            - ucast (common_free_fields (board g) (width g) (height g) pl x y)
            - ucast (diagonal_neighbours g pl x y)\<rparr>)"

text \<open>
  What each of the three branches of \<open>game_move\<close> does to the game \<open>g\<close> before the block
  under \<open>update game's info\<close> runs on the result \<open>m\<close>.
\<close>

definition branch_state :: "game_t \<Rightarrow> uint32_t \<Rightarrow> uint32_t \<Rightarrow> uint32_t \<Rightarrow> game_t \<Rightarrow> bool" where
  "branch_state g pl x y m \<longleftrightarrow>
     width m = width g \<and> height m = height g \<and> areas m = areas g \<and>
     players_num m = players_num g \<and> length (players m) = length (players g) \<and>
     (\<forall>q. q \<noteq> pl \<longrightarrow> the_player m q = the_player g q) \<and>
     completed_moves (the_player m pl) = completed_moves (the_player g pl) \<and>
     boundary (the_player m pl) = boundary (the_player g pl)
        - (if owned_around g pl x y \<noteq> 0 \<and> player (cell m x y) = pl then 1 else 0) \<and>
     (\<forall>i j. (i, j) \<noteq> (unat x, unat y) \<longrightarrow> player (board m i j) = player (board g i j)) \<and>
     (\<forall>i j. player (board m i j) \<noteq> pl \<longrightarrow> board m i j = board g i j)"

text \<open>
  Names for the games of concrete runs: the game after a list of calls from a new game,
  and the game that one more call leaves.
\<close>

definition after_moves :: "game_t option \<Rightarrow> (uint32_t \<times> uint32_t \<times> uint32_t) list \<Rightarrow> game_t" where
  "after_moves g0 ms = projr (game_moves (the g0) ms)"

definition after_move :: "game_t \<Rightarrow> uint32_t \<Rightarrow> uint32_t \<Rightarrow> uint32_t \<Rightarrow> game_t" where
  "after_move g pl x y = snd (projr (game_move g pl x y))"

section \<open>Properties\<close>

subsection \<open>Reading and writing the two arrays\<close>

lemma set_cell_fields [simp]:
  "players (set_cell g x y c) = players g"
  "neighbours (set_cell g x y c) = neighbours g"
  "width (set_cell g x y c) = width g"
  "height (set_cell g x y c) = height g"
  "areas (set_cell g x y c) = areas g"
  "players_num (set_cell g x y c) = players_num g"
  by (simp_all add: set_cell_def)

lemma board_set_cell:
  "board (set_cell g x y c) i j = (if i = unat x \<and> j = unat y then c else board g i j)"
  by (simp add: set_cell_def)

lemma cell_set_cell [simp]:
  "cell (set_cell g x y c) x' y' = (if x' = x \<and> y' = y then c else cell g x' y')"
  by (simp add: set_cell_def cell_def word_unat_eq_iff)

lemma set_player_fields [simp]:
  "board (set_player g pl r) = board g"
  "neighbours (set_player g pl r) = neighbours g"
  "width (set_player g pl r) = width g"
  "height (set_player g pl r) = height g"
  "areas (set_player g pl r) = areas g"
  "players_num (set_player g pl r) = players_num g"
  "length (players (set_player g pl r)) = length (players g)"
  "cell (set_player g pl r) x y = cell g x y"
  by (simp_all add: set_player_def cell_def)

lemma the_player_set_player [simp]:
  "unat (pl - 1) < length (players g) \<Longrightarrow>
   the_player (set_player g pl r) q = (if q = pl then r else the_player g q)"
proof -
  have "(unat (q - 1) = unat (pl - 1)) = (q = pl)" "(unat (pl - 1) = unat (q - 1)) = (q = pl)"
    by (auto simp add: word_unat_eq_iff [symmetric])
  then show "unat (pl - 1) < length (players g) \<Longrightarrow>
   the_player (set_player g pl r) q = (if q = pl then r else the_player g q)"
    by (simp add: the_player_def set_player_def nth_list_update)
qed

lemma the_player_set_cell [simp]: "the_player (set_cell g x y c) q = the_player g q"
  by (simp add: the_player_def)

lemma players_set_player_nth:
  "k \<noteq> unat (pl - 1) \<Longrightarrow> players (set_player g pl r) ! k = players g ! k"
  by (simp add: set_player_def)

subsection \<open>What the relabelling leaves alone\<close>

lemma BFS_calls_fields:
  "players (BFS_calls g ident pl cs) = players g \<and>
   neighbours (BFS_calls g ident pl cs) = neighbours g \<and>
   width (BFS_calls g ident pl cs) = width g \<and>
   height (BFS_calls g ident pl cs) = height g \<and>
   areas (BFS_calls g ident pl cs) = areas g \<and>
   players_num (BFS_calls g ident pl cs) = players_num g"
proof (induction g ident pl cs rule: BFS_calls.induct)
  case (1 g ident pl)
  show ?case by (simp add: BFS_calls.simps)
next
  case (2 g ident pl x y cs)
  then show ?case by (simp add: BFS_calls.simps(2) [of g ident pl x y cs])
qed

lemma BFS_calls_board:
  "board (BFS_calls g ident pl cs) i j = board g i j \<or>
   (player (board g i j) = pl \<and> parent_id (board g i j) \<noteq> ident \<and>
    board (BFS_calls g ident pl cs) i j = (board g i j)\<lparr>parent_id := ident\<rparr>)"
proof (induction g ident pl cs rule: BFS_calls.induct)
  case (1 g ident pl)
  show ?case by (simp add: BFS_calls.simps)
next
  case (2 g ident pl x y cs)
  show ?case
  proof (cases "valid_coordinate (width g) (height g) x y")
    case False
    with "2.IH"(1) show ?thesis
      by (simp add: BFS_calls.simps(2) [of g ident pl x y cs])
  next
    case valid: True
    show ?thesis
    proof (cases "player (cell g x y) = pl \<and> parent_id (cell g x y) \<noteq> ident")
      case False
      then have "BFS_calls g ident pl ((x, y) # cs) = BFS_calls g ident pl cs"
        using valid by (auto simp add: BFS_calls.simps(2) [of g ident pl x y cs])
      with valid False "2.IH"(3) show ?thesis
        by simp
    next
      case True
      let ?g = "set_cell g x y ((cell g x y)\<lparr>parent_id := ident\<rparr>)"
      let ?cs = "(x - 1, y) # (x + 1, y) # (x, y - 1) # (x, y + 1) # cs"
      have eq: "BFS_calls g ident pl ((x, y) # cs) = BFS_calls ?g ident pl ?cs"
        using valid True by (simp add: BFS_calls.simps(2) [of g ident pl x y cs])
      from "2.IH"(2) valid True
      have ih: "board (BFS_calls ?g ident pl ?cs) i j = board ?g i j \<or>
         (player (board ?g i j) = pl \<and> parent_id (board ?g i j) \<noteq> ident \<and>
          board (BFS_calls ?g ident pl ?cs) i j = (board ?g i j)\<lparr>parent_id := ident\<rparr>)"
        by simp
      show ?thesis
      proof (cases "i = unat x \<and> j = unat y")
        case here: True
        then have "board ?g i j = (board g i j)\<lparr>parent_id := ident\<rparr>"
          by (simp add: board_set_cell cell_def)
        with ih here True show ?thesis
          by (auto simp add: eq cell_def)
      next
        case False
        then have "board ?g i j = board g i j"
          by (auto simp add: board_set_cell)
        with ih show ?thesis
          by (simp add: eq)
      qed
    qed
  qed
qed

lemma BFS_calls_owner:
  "player (board (BFS_calls g ident pl cs) i j) = player (board g i j)"
  using BFS_calls_board [of g ident pl cs i j] by auto

lemma BFS_calls_other:
  "player (board g i j) \<noteq> pl \<Longrightarrow> board (BFS_calls g ident pl cs) i j = board g i j"
  using BFS_calls_board [of g ident pl cs i j] by auto

lemma BFS_calls_labelled:
  "parent_id (board g i j) = ident \<Longrightarrow> board (BFS_calls g ident pl cs) i j = board g i j"
  using BFS_calls_board [of g ident pl cs i j] by auto

lemma BFS_fields [simp]:
  "players (BFS g ident pl x y) = players g"
  "neighbours (BFS g ident pl x y) = neighbours g"
  "width (BFS g ident pl x y) = width g"
  "height (BFS g ident pl x y) = height g"
  "areas (BFS g ident pl x y) = areas g"
  "players_num (BFS g ident pl x y) = players_num g"
  "the_player (BFS g ident pl x y) q = the_player g q"
  by (simp_all add: BFS_def BFS_calls_fields the_player_def)

lemma BFS_owner [simp]: "player (board (BFS g ident pl x y) i j) = player (board g i j)"
  by (simp add: BFS_def BFS_calls_owner)

lemma BFS_other: "player (board g i j) \<noteq> pl \<Longrightarrow> board (BFS g ident pl x y) i j = board g i j"
  by (simp add: BFS_def BFS_calls_other)

lemma BFS_labelled: "parent_id (board g i j) = ident \<Longrightarrow> board (BFS g ident pl x y) i j = board g i j"
  by (simp add: BFS_def BFS_calls_labelled)

text \<open>The calls are made one after the other, as the C function makes them.\<close>

lemma BFS_calls_append:
  "BFS_calls g ident pl (cs @ ds) = BFS_calls (BFS_calls g ident pl cs) ident pl ds"
proof (induction g ident pl cs rule: BFS_calls.induct)
  case (1 g ident pl)
  show ?case by (simp add: BFS_calls.simps)
next
  case (2 g ident pl x y cs)
  then show ?case
    by (simp add: BFS_calls.simps(2) [of g ident pl x y] BFS_calls_fields)
qed

lemma BFS_unfold:
  "BFS g ident pl x y =
     (if \<not> valid_coordinate (width g) (height g) x y then g
      else if player (cell g x y) = pl \<and> parent_id (cell g x y) \<noteq> ident
      then (let g0 = set_cell g x y ((cell g x y)\<lparr>parent_id := ident\<rparr>);
                g1 = BFS g0 ident pl (x - 1) y;
                g2 = BFS g1 ident pl (x + 1) y;
                g3 = BFS g2 ident pl x (y - 1)
            in BFS g3 ident pl x (y + 1))
      else g)"
proof -
  have split: "BFS_calls h ident pl [a, b, c, d] =
      BFS_calls (BFS_calls (BFS_calls (BFS_calls h ident pl [a]) ident pl [b]) ident pl [c]) ident pl [d]"
    for h a b c d
    using BFS_calls_append [of h ident pl "[a]" "[b, c, d]"]
      BFS_calls_append [of "BFS_calls h ident pl [a]" ident pl "[b]" "[c, d]"]
      BFS_calls_append [of "BFS_calls (BFS_calls h ident pl [a]) ident pl [b]" ident pl "[c]" "[d]"]
    by simp
  show ?thesis
    by (simp add: BFS_def BFS_calls.simps(1) BFS_calls.simps(2) [of g ident pl x y "[]"] split Let_def)
qed


subsection \<open>The 64-bit arguments of \<open>isSurrounded\<close>\<close>

lemma unat_ucast_up: "unat (ucast (x::32 word) :: 64 word) = unat x"
proof -
  have "unat x < 2 ^ 32" using unsigned_less [of x, where 'a = nat] by simp
  then have "unat x < 2 ^ 64" by simp
  then show ?thesis by (simp add: unsigned_ucast_eq take_bit_nat_eq_self)
qed

lemma unat_lt_32: "unat (x::32 word) < 4294967296"
  using unsigned_less [of x, where 'a = nat] by simp

lemma ucast_down_up: "(ucast (ucast (x::32 word) :: 64 word) :: 32 word) = x"
  by (simp add: ucast_up_ucast_id is_up)

lemma ucast_up_eq_iff: "((ucast (a::32 word) :: 64 word) = ucast b) = (a = b)"
  by (simp add: word_unat_eq_iff unat_ucast_up)

lemma ucast_up_pos: "(0 < (ucast (a::32 word) :: 64 word)) = (0 < a)"
  by (simp add: word_less_nat_alt unat_ucast_up)

lemma unat_up_sub1: "0 < x \<Longrightarrow> unat ((ucast (x::32 word) :: 64 word) - 1) = unat (x - 1)"
proof -
  assume "0 < x"
  then have "x \<noteq> 0" and "(ucast x :: 64 word) \<noteq> 0"
    by (auto simp: word_greater_zero_iff word_unat_eq_iff unat_ucast_up)
  then show ?thesis
    by (simp add: unat_minus_one unat_ucast_up)
qed

lemma unat_up_add1: "unat ((ucast (x::32 word) :: 64 word) + 1) = unat x + 1"
proof -
  have "unat (ucast x :: 64 word) + unat (1 :: 64 word) < 2 ^ LENGTH(64)"
    using unat_lt_32 [of x] by (simp add: unat_ucast_up)
  then have "unat ((ucast x :: 64 word) + 1) = unat (ucast x :: 64 word) + unat (1 :: 64 word)"
    by (simp only: unat_add_lem)
  then show ?thesis by (simp add: unat_ucast_up)
qed

lemma unat_add1: "x < w \<Longrightarrow> unat ((x::32 word) + 1) = unat x + 1"
  by unat_arith

lemma unat_sub1: "0 < x \<Longrightarrow> unat ((x::32 word) - 1) = unat x - 1"
  by unat_arith

lemma ucast_down_sub1: "0 < x \<Longrightarrow> (ucast ((ucast (x::32 word) :: 64 word) - 1) :: 32 word) = x - 1"
  using unat_lt_32 [of x]
  by (simp add: word_unat_eq_iff unsigned_ucast_eq unat_up_sub1 unat_sub1 take_bit_nat_eq_self)

lemma ucast_down_add1: "x < w \<Longrightarrow> (ucast ((ucast (x::32 word) :: 64 word) + 1) :: 32 word) = x + 1"
  using unat_lt_32 [of "x + 1"]
  by (simp add: word_unat_eq_iff unsigned_ucast_eq unat_up_add1 unat_add1 take_bit_nat_eq_self)

lemma up_add1_less: "x < w \<Longrightarrow> ((ucast (x::32 word) :: 64 word) + 1 < ucast (w::32 word)) = (x + 1 < w)"
  by (simp add: word_less_nat_alt unat_up_add1 unat_add1 unat_ucast_up)

lemma isSurrounded_32:
  assumes "valid_coordinate w h x y"
  shows "isSurrounded b (ucast w) (ucast h) (ucast pl) (ucast x) (ucast y) =
     (if x > 0 \<and> player (b (unat x - 1) (unat y)) = pl then 1 else 0)
   + (if x + 1 < w \<and> player (b (unat x + 1) (unat y)) = pl then 1 else 0)
   + (if y > 0 \<and> player (b (unat x) (unat y - 1)) = pl then 1 else 0)
   + (if y + 1 < h \<and> player (b (unat x) (unat y + 1)) = pl then 1 else 0)"
proof -
  from assms have xw: "x < w" and yh: "y < h"
    by (simp_all add: valid_coordinate_def not_le)
  have a: "0 < x \<Longrightarrow> x - 1 < w" using xw by unat_arith
  have b: "0 < y \<Longrightarrow> y - 1 < h" using yh by unat_arith
  show ?thesis
    unfolding isSurrounded_def valid_coordinate_def
    using xw yh a b
    by (simp add: ucast_down_up ucast_up_eq_iff ucast_up_pos unat_up_sub1 unat_up_add1
        ucast_down_sub1 ucast_down_add1 up_add1_less unat_ucast_up not_le unat_sub1
        cong: conj_cong)
qed



subsection \<open>The area classifier\<close>

lemma count_step_full: "\<not> k < around \<Longrightarrow> foldl (count_step nb around) k ps = k"
  by (induction ps) (auto simp: count_step_def)

lemma different_areas_j_fold:
  "different_areas_j nb around i j ars = foldl (count_step nb around) ars (map (Pair i) [j..<4])"
proof (induction nb around i j ars rule: different_areas_j.induct)
  case (1 nb around i j ars)
  show ?case
  proof (cases "j < 4 \<and> ars < around")
    case True
    then have "[j..<4] = j # [j + 1..<4]"
      by (simp add: upt_conv_Cons)
    with True "1.IH" show ?thesis
      by (simp add: different_areas_j.simps [of nb around i j ars] count_step_def)
  next
    case False
    then have "different_areas_j nb around i j ars = ars"
      by (auto simp add: different_areas_j.simps [of nb around i j ars])
    moreover from False have "foldl (count_step nb around) ars (map (Pair i) [j..<4]) = ars"
      by (cases "j < 4") (simp_all add: count_step_full)
    ultimately show ?thesis by simp
  qed
qed

lemma different_areas_i_fold:
  "different_areas_i nb around i ars =
     foldl (count_step nb around) ars (concat (map (\<lambda>i. map (Pair i) [i + 1..<4]) [i..<3]))"
proof (induction nb around i ars rule: different_areas_i.induct)
  case (1 nb around i ars)
  show ?case
  proof (cases "i < 3")
    case True
    then have "[i..<3] = i # [i + 1..<3]"
      by (simp add: upt_conv_Cons)
    with True "1.IH" show ?thesis
      by (simp add: different_areas_i.simps [of nb around i ars] different_areas_j_fold)
  next
    case False
    then show ?thesis
      by (simp add: different_areas_i.simps [of nb around i ars])
  qed
qed

lemma slot_pairs_loops: "concat (map (\<lambda>i. map (Pair i) [i + 1..<4]) [0..<3]) = slot_pairs"
  by (simp add: slot_pairs_def upt_rec)

lemma count_step_min:
  "k \<le> around \<Longrightarrow>
   unat (foldl (count_step nb around) k ps) = min (unat k + length (filter (differ nb) ps)) (unat around)"
proof (induction ps arbitrary: k)
  case Nil
  then show ?case by (simp add: word_le_nat_alt)
next
  case (Cons p ps)
  obtain i j where p: "p = (i, j)" by (cases p)
  show ?case
  proof (cases "k < around")
    case False
    with Cons.prems have "k = around" by simp
    then show ?thesis
      using count_step_full [of k around nb "p # ps"] by simp
  next
    case True
    then have suc: "unat (k + 1) = unat k + 1" and le: "k + 1 \<le> around"
      by unat_arith+
    show ?thesis
    proof (cases "differ nb p")
      case True
      with \<open>k < around\<close> have "count_step nb around k p = k + 1"
        by (simp add: count_step_def differ_def p)
      with Cons.IH [OF le] suc True show ?thesis by simp
    next
      case False
      then have "count_step nb around k p = k"
        by (simp add: count_step_def differ_def p)
      with Cons.IH [OF Cons.prems] False show ?thesis by simp
    qed
  qed
qed

text \<open>
  What the two loops compute. For a four-slot array and \<open>around\<close> other than 4 the
  result is the number of slot pairs with two different nonzero tags, capped at
  \<open>around\<close>, and 1 when that number is 0; for \<open>around = 4\<close> the first line returns 4.
\<close>

lemma different_areas_loops:
  "(around = 4 \<longrightarrow> different_areas [a, b, c, d] around = 4) \<and>
   (around \<noteq> 4 \<longrightarrow> unat (different_areas [a, b, c, d] around) = pair_count [a, b, c, d] around)"
proof -
  let ?nb = "[a, b, c, d]"
  have "different_areas_i ?nb around 0 0 = foldl (count_step ?nb around) 0 slot_pairs"
    by (simp only: different_areas_i_fold slot_pairs_loops)
  then have k: "unat (different_areas_i ?nb around 0 0) =
      min (length (filter (differ ?nb) slot_pairs)) (unat around)"
    using count_step_min [of 0 around ?nb slot_pairs]
    by simp
  have "unat (if different_areas_i ?nb around 0 0 = 0 then 1 else different_areas_i ?nb around 0 0) =
      (if unat (different_areas_i ?nb around 0 0) = 0 then 1 else unat (different_areas_i ?nb around 0 0))"
    by (simp add: unat_eq_zero)
  then have "around \<noteq> 4 \<Longrightarrow> unat (different_areas ?nb around) = pair_count ?nb around"
    by (simp only: different_areas_def pair_count_def Let_def k if_False)
  then show ?thesis
    by (simp add: different_areas_def)
qed

text \<open>
  C3 at two neighbourhoods. Four neighbours with the one tag 1 (\<open>around = 4\<close>) are one
  area, and the count of differing pairs, forced to 1, is 1 as well: \<open>different_areas\<close>
  returns 4, by its first line. Two neighbours with the tags 1 and 2 (\<open>around = 2\<close>) are
  two areas: \<open>different_areas\<close> returns 1, the number of differing pairs. The comment of
  the function has it calculate how many different areas are around the square.
\<close>

theorem different_areas_miscounts:
  "different_areas [1, 1, 1, 1] 4 = 4 \<and> distinct_tags [1, 1, 1, 1] = 1 \<and>
   pair_count [1, 1, 1, 1] 4 = 1 \<and>
   different_areas [1, 2, 0, 0] 2 = 1 \<and> distinct_tags [1, 2, 0, 0] = 2"
  by (simp add: different_areas_def distinct_tags_def pair_count_def differ_def slot_pairs_def
      different_areas_i.simps different_areas_j.simps)

subsection \<open>New games and the queries\<close>

lemma game_new_Some:
  "game_new w h pls ars = Some g \<Longrightarrow>
   w \<noteq> 0 \<and> h \<noteq> 0 \<and> pls \<noteq> 0 \<and> ars \<noteq> 0 \<and> pls \<le> 35 \<and>
   g = \<lparr>board = (\<lambda>i j. \<lparr>player = 0, parent_id = 0\<rparr>),
        players = replicate (unat pls) \<lparr>boundary = 0, busy_areas = 0, completed_moves = 0\<rparr>,
        neighbours = replicate 4 0,
        width = w, height = h, areas = ars, players_num = pls\<rparr>"
  by (auto simp: game_new_def MAX_PLAYERS_def not_less split: if_splits)

lemma wf_game_new: "game_new w h pls ars = Some g \<Longrightarrow> wf_game g"
  by (drule game_new_Some) (simp add: wf_game_def)

lemma busy_fields_all_sum:
  "p \<le> players_num g \<Longrightarrow> unat (players_num g) \<le> length (players g) \<Longrightarrow>
   busy_fields_all g p acc =
     acc + sum_list (map completed_moves (drop (unat p) (take (unat (players_num g)) (players g))))"
proof (induction g p acc rule: busy_fields_all.induct)
  case (1 g p acc)
  show ?case
  proof (cases "p < players_num g")
    case True
    then have suc: "unat (p + 1) = Suc (unat p)" and le: "p + 1 \<le> players_num g"
      and lt: "unat p < unat (players_num g)"
      by unat_arith+
    from lt "1.prems"(2)
    have "drop (unat p) (take (unat (players_num g)) (players g)) =
        players g ! unat p # drop (Suc (unat p)) (take (unat (players_num g)) (players g))"
      by (simp add: Cons_nth_drop_Suc [symmetric])
    with "1.IH" [OF True le "1.prems"(2)] True suc show ?thesis
      by (simp add: busy_fields_all.simps [of g p acc])
  next
    case False
    then have "busy_fields_all g p acc = acc"
      by (simp add: busy_fields_all.simps [of g p acc])
    moreover from False "1.prems"(1) have "p = players_num g" by simp
    ultimately show ?thesis by simp
  qed
qed

lemma busy_fields_all_wf:
  "wf_game g \<Longrightarrow> busy_fields_all g 0 0 = sum_list (map completed_moves (players g))"
  using busy_fields_all_sum [of 0 g 0] by (simp add: wf_game_def)

lemma player_index:
  "wf_game g \<Longrightarrow> 0 < pl \<Longrightarrow> pl \<le> players_num g \<Longrightarrow> unat (pl - 1) < length (players g)"
  unfolding wf_game_def by unat_arith

lemma game_free_fields_room:
  assumes "wf_game g" and "0 < pl" and "pl \<le> players_num g"
    and "busy_areas (the_player g pl) \<noteq> areas g"
  shows "game_free_fields g pl =
     Inr (ucast (height g) * ucast (width g) - sum_list (map completed_moves (players g)))"
proof -
  from assms(3) have "\<not> players_num g < pl" by simp
  with assms(1,4) player_index [OF assms(1-3)] show ?thesis
    by (simp add: game_free_fields_def busy_fields_all_wf Let_def)
qed

lemma mult_32_64: "unat ((ucast (h :: uint32_t) :: uint64_t) * ucast (w :: uint32_t)) = unat h * unat w"
proof -
  have "unat h < 2 ^ 32" "unat w < 2 ^ 32"
    using unat_lt_32 [of h] unat_lt_32 [of w] by simp_all
  then have "unat h * unat w < 2 ^ 32 * 2 ^ 32"
    by (intro mult_strict_mono) simp_all
  then have "unat (ucast h :: uint64_t) * unat (ucast w :: uint64_t) < 2 ^ LENGTH(64)"
    by (simp add: unat_ucast_up)
  then show ?thesis
    by (simp add: unat_mult_lem [THEN iffD1] unat_ucast_up)
qed

text \<open>
  C9. In a game that \<open>game_new\<close> has just built every square is empty, and for every
  valid player \<open>game_busy_fields\<close> is 0 and \<open>game_free_fields\<close> is \<open>width * height\<close>.
\<close>

theorem game_new_fresh:
  assumes "game_new w h pls ars = Some g"
  shows "(\<forall>i j. player (board g i j) = 0) \<and>
         (\<forall>pl. 0 < pl \<and> pl \<le> pls \<longrightarrow>
            game_busy_fields g pl = Inr 0 \<and>
            (\<exists>v. game_free_fields g pl = Inr v \<and> unat v = unat w * unat h))"
proof -
  note g = game_new_Some [OF assms]
  have wf: "wf_game g" by (rule wf_game_new [OF assms])
  have cells: "\<forall>i j. player (board g i j) = 0"
    using g by simp
  have pn: "players_num g = pls" "width g = w" "height g = h" "areas g = ars"
    using g by simp_all
  have "game_busy_fields g pl = Inr 0 \<and>
        (\<exists>v. game_free_fields g pl = Inr v \<and> unat v = unat w * unat h)"
    if pl: "0 < pl" "pl \<le> pls" for pl
  proof -
    have idx: "unat (pl - 1) < length (players g)"
      using player_index [OF wf] pl pn by simp
    then have idx': "unat (pl - 1) < unat pls"
      using g by simp
    have rec: "the_player g pl = \<lparr>boundary = 0, busy_areas = 0, completed_moves = 0\<rparr>"
      using g idx' by (simp add: the_player_def)
    have sum: "sum_list (map completed_moves (players g)) = 0"
      using g by (simp add: sum_list_replicate)
    have "\<not> players_num g < pl" using pl pn by simp
    then have busy: "game_busy_fields g pl = Inr 0"
      using idx rec by (simp add: game_busy_fields_def)
    have "ars \<noteq> 0" using g by simp
    then have "game_free_fields g pl = Inr (ucast h * ucast w)"
      using game_free_fields_room [OF wf, of pl] pl pn rec sum by simp
    then show ?thesis
      using busy by (simp add: mult_32_64 mult.commute)
  qed
  with cells show ?thesis by blast
qed

theorem game_new_fresh_witness:
  "game_new 10 10 2 3 \<noteq> None \<and>
   player (board (the (game_new 10 10 2 3)) 4 7) = 0 \<and>
   game_busy_fields (the (game_new 10 10 2 3)) 2 = Inr 0 \<and>
   game_free_fields (the (game_new 10 10 2 3)) 2 = Inr 100"
proof -
  obtain g where g: "game_new 10 10 2 3 = Some g"
    by (simp add: game_new_def MAX_PLAYERS_def)
  from game_new_fresh [OF g]
  have "player (board g 4 7) = 0" and "game_busy_fields g 2 = Inr 0"
    and "\<exists>v. game_free_fields g 2 = Inr v \<and> unat v = unat (10 :: uint32_t) * unat (10 :: uint32_t)"
    by simp_all
  then show ?thesis
    using g by (auto simp: word_unat_eq_iff)
qed

subsection \<open>Counting the neighbours of a square\<close>

lemma valid_coordinate_less:
  "valid_coordinate w h x y \<longleftrightarrow> unat x < unat w \<and> unat y < unat h"
  by (auto simp: valid_coordinate_def word_le_nat_alt)

lemma owned_around_alt:
  assumes "valid_coordinate (width g) (height g) x y"
  shows "owned_around g q x y =
     (if 0 < x \<and> player (cell g (x - 1) y) = q then 1 else 0)
   + (if x + 1 < width g \<and> player (cell g (x + 1) y) = q then 1 else 0)
   + (if 0 < y \<and> player (cell g x (y - 1)) = q then 1 else 0)
   + (if y + 1 < height g \<and> player (cell g x (y + 1)) = q then 1 else 0)"
proof -
  from assms have xw: "x < width g" and yh: "y < height g"
    by (simp_all add: valid_coordinate_def not_le)
  have x0: "(0 < unat x) = (0 < x)" and y0: "(0 < unat y) = (0 < y)"
    by (simp_all add: word_less_nat_alt)
  have x1: "(unat x + 1 < unat (width g)) = (x + 1 < width g)"
    using xw by (simp add: word_less_nat_alt unat_add1)
  have y1: "(unat y + 1 < unat (height g)) = (y + 1 < height g)"
    using yh by (simp add: word_less_nat_alt unat_add1)
  have xm: "0 < x \<Longrightarrow> unat (x - 1) = unat x - 1" and ym: "0 < y \<Longrightarrow> unat (y - 1) = unat y - 1"
    by (simp_all add: unat_sub1)
  have xp: "unat (x + 1) = unat x + 1" and yp: "unat (y + 1) = unat y + 1"
    using xw yh by (simp_all add: unat_add1)
  show ?thesis
    unfolding owned_around_def orthogonal_def cell_def
    using x0 y0 x1 y1 xm ym xp yp
    by (simp cong: conj_cong)
qed

lemma isSurrounded_owned_around:
  assumes "valid_coordinate (width g) (height g) x y"
  shows "isSurrounded (board g) (ucast (width g)) (ucast (height g)) (ucast q) (ucast x) (ucast y)
         = of_nat (owned_around g q x y)"
proof -
  from assms have xw: "x < width g" and yh: "y < height g"
    by (simp_all add: valid_coordinate_def not_le)
  have xm: "0 < x \<Longrightarrow> unat (x - 1) = unat x - 1" and ym: "0 < y \<Longrightarrow> unat (y - 1) = unat y - 1"
    by (simp_all add: unat_sub1)
  have xp: "unat (x + 1) = unat x + 1" and yp: "unat (y + 1) = unat y + 1"
    using xw yh by (simp_all add: unat_add1)
  show ?thesis
    unfolding isSurrounded_32 [OF assms] owned_around_alt [OF assms] cell_def
    using xm ym xp yp
    by (simp cong: conj_cong)
qed

lemma owned_around_le: "owned_around g q x y \<le> 4"
  by (simp add: owned_around_def orthogonal_def)

lemma isSurrounded_zero_iff:
  assumes "valid_coordinate (width g) (height g) x y"
  shows "isSurrounded (board g) (ucast (width g)) (ucast (height g)) (ucast q) (ucast x) (ucast y) = 0
         \<longleftrightarrow> owned_around g q x y = 0"
proof -
  have "unat (of_nat (owned_around g q x y) :: uint32_t) = owned_around g q x y"
    using owned_around_le [of g q x y] by (simp add: unat_of_nat)
  then show ?thesis
    unfolding isSurrounded_owned_around [OF assms]
    by (metis unat_eq_zero)
qed


subsection \<open>The neighbours' boundaries\<close>

lemma update_strangers_boundary_Inr:
  assumes "update_strangers_boundary g pl x y = Inr g'"
  shows "board g' = board g \<and> neighbours g' = neighbours g \<and> width g' = width g \<and>
         height g' = height g \<and> areas g' = areas g \<and> players_num g' = players_num g \<and>
         length (players g') = length (players g) \<and>
         (\<forall>q. the_player g' q = (the_player g q)\<lparr>boundary := boundary (the_player g q)
               - (if valid_coordinate (width g) (height g) x y \<and> player (cell g x y) = q
                     \<and> q \<noteq> 0 \<and> q \<noteq> pl then 1 else 0)\<rparr>)"
  using assms
  by (auto simp add: update_strangers_boundary_def Let_def split: if_splits)

lemma update_strangers_boundary_total:
  assumes "valid_coordinate (width g) (height g) x y \<longrightarrow> player (cell g x y) \<noteq> 0 \<longrightarrow>
           unat (player (cell g x y) - 1) < length (players g)"
  shows "\<exists>g'. update_strangers_boundary g pl x y = Inr g'"
  using assms
  by (auto simp add: update_strangers_boundary_def Let_def)


lemma same_frame_refl [simp]: "same_frame g g"
  by (simp add: same_frame_def)

lemma same_frame_trans: "same_frame g g1 \<Longrightarrow> same_frame g1 g2 \<Longrightarrow> same_frame g g2"
  by (simp add: same_frame_def)

lemma same_frame_cell: "same_frame g g' \<Longrightarrow> cell g' x y = cell g x y"
  by (simp add: same_frame_def cell_def)

lemma stranger_step:
  assumes "(if c then update_strangers_boundary g pl x y else Inr g) = Inr g1"
    and "c \<Longrightarrow> valid_coordinate (width g) (height g) x y"
  shows "same_frame g g1 \<and>
         (\<forall>q. the_player g1 q = (the_player g q)\<lparr>boundary := boundary (the_player g q)
               - (if q \<noteq> 0 \<and> q \<noteq> pl then (if c \<and> player (cell g x y) = q then 1 else 0) else 0)\<rparr>)"
proof (cases c)
  case True
  with assms update_strangers_boundary_Inr [of g pl x y g1] show ?thesis
    by (auto simp add: same_frame_def)
next
  case False
  with assms show ?thesis by simp
qed

lemma update_strangers_Inr:
  assumes valid: "valid_coordinate (width g) (height g) x y"
    and run: "update_strangers g pl x y = Inr g'"
  shows "same_frame g g' \<and>
         (\<forall>q. the_player g' q = (the_player g q)\<lparr>boundary := boundary (the_player g q)
               - (if q \<noteq> 0 \<and> q \<noteq> pl then of_nat (owned_around g q x y) else 0)\<rparr>)"
proof -
  from valid have xw: "x < width g" and yh: "y < height g"
    by (simp_all add: valid_coordinate_def not_le)
  from run obtain g1 g2 g3 where
    s1: "(if x > 0 then update_strangers_boundary g pl (x - 1) y else Inr g) = Inr g1" and
    s2: "(if x + 1 < width g1 then update_strangers_boundary g1 pl (x + 1) y else Inr g1) = Inr g2" and
    s3: "(if y > 0 then update_strangers_boundary g2 pl x (y - 1) else Inr g2) = Inr g3" and
    s4: "(if y + 1 < height g3 then update_strangers_boundary g3 pl x (y + 1) else Inr g3) = Inr g'"
    by (auto simp add: update_strangers_def split: sum.splits)
  have v1: "x > 0 \<Longrightarrow> valid_coordinate (width g) (height g) (x - 1) y"
    using xw yh unfolding valid_coordinate_def by unat_arith
  note r1 = stranger_step [OF s1 v1]
  then have f1: "same_frame g g1" by simp
  have v2: "x + 1 < width g1 \<Longrightarrow> valid_coordinate (width g1) (height g1) (x + 1) y"
    using yh f1 by (simp add: valid_coordinate_def same_frame_def not_le)
  note r2 = stranger_step [OF s2 v2]
  then have f2: "same_frame g g2" using f1 by (blast intro: same_frame_trans)
  have v3: "y > 0 \<Longrightarrow> valid_coordinate (width g2) (height g2) x (y - 1)"
    using xw yh f2 unfolding valid_coordinate_def same_frame_def by unat_arith
  note r3 = stranger_step [OF s3 v3]
  then have f3: "same_frame g g3" using f2 by (blast intro: same_frame_trans)
  have v4: "y + 1 < height g3 \<Longrightarrow> valid_coordinate (width g3) (height g3) x (y + 1)"
    using xw f3 by (simp add: valid_coordinate_def same_frame_def not_le)
  note r4 = stranger_step [OF s4 v4]
  then have f4: "same_frame g g'" using f3 by (blast intro: same_frame_trans)
  have "the_player g' q = (the_player g q)\<lparr>boundary := boundary (the_player g q)
               - (if q \<noteq> 0 \<and> q \<noteq> pl then of_nat (owned_around g q x y) else 0)\<rparr>" for q
  proof -
    have w: "width g1 = width g" "height g3 = height g"
      using f1 f3 by (simp_all add: same_frame_def)
    have c: "cell g1 (x + 1) y = cell g (x + 1) y" "cell g2 x (y - 1) = cell g x (y - 1)"
      "cell g3 x (y + 1) = cell g x (y + 1)"
      using f1 f2 f3 by (simp_all add: same_frame_cell)
    show ?thesis
      using r1 r2 r3 r4
      by (simp add: w c owned_around_alt [OF valid])
  qed
  with f4 show ?thesis by simp
qed


lemma wf_game_owners_ok: "wf_game g \<Longrightarrow> owners_ok g"
  unfolding wf_game_def owners_ok_def
proof (intro allI impI)
  fix i j
  assume wf: "length (players g) = unat (players_num g) \<and>
     (\<forall>i j. i < unat (width g) \<longrightarrow> j < unat (height g) \<longrightarrow> player (board g i j) \<le> players_num g)"
    and "i < unat (width g)" "j < unat (height g)" and nz: "player (board g i j) \<noteq> 0"
  then have "player (board g i j) \<le> players_num g" by simp
  with nz have "unat (player (board g i j) - 1) < unat (players_num g)"
    by unat_arith
  with wf show "unat (player (board g i j) - 1) < length (players g)" by simp
qed

lemma same_frame_owners_ok: "same_frame g g' \<Longrightarrow> owners_ok g \<Longrightarrow> owners_ok g'"
  by (simp add: same_frame_def owners_ok_def)

lemma same_frame_owned_around: "same_frame g g' \<Longrightarrow> owned_around g' q x y = owned_around g q x y"
  by (simp add: same_frame_def owned_around_def orthogonal_def)

lemma stranger_step_total:
  assumes "owners_ok g"
  shows "\<exists>g1. (if c then update_strangers_boundary g pl x y else Inr g) = Inr g1"
proof (cases c)
  case True
  have "valid_coordinate (width g) (height g) x y \<longrightarrow> player (cell g x y) \<noteq> 0 \<longrightarrow>
           unat (player (cell g x y) - 1) < length (players g)"
    using assms by (simp add: owners_ok_def valid_coordinate_less cell_def)
  from update_strangers_boundary_total [OF this] True show ?thesis by simp
next
  case False
  then show ?thesis by simp
qed

lemma update_strangers_total:
  assumes valid: "valid_coordinate (width g) (height g) x y" and ok: "owners_ok g"
  shows "\<exists>g'. update_strangers g pl x y = Inr g'"
proof -
  from valid have xw: "x < width g" and yh: "y < height g"
    by (simp_all add: valid_coordinate_def not_le)
  obtain g1 where
    s1: "(if x > 0 then update_strangers_boundary g pl (x - 1) y else Inr g) = Inr g1"
    using stranger_step_total [OF ok] by blast
  have v1: "x > 0 \<Longrightarrow> valid_coordinate (width g) (height g) (x - 1) y"
    using xw yh unfolding valid_coordinate_def by unat_arith
  from stranger_step [OF s1 v1] have f1: "same_frame g g1" by simp
  obtain g2 where
    s2: "(if x + 1 < width g1 then update_strangers_boundary g1 pl (x + 1) y else Inr g1) = Inr g2"
    using stranger_step_total [OF same_frame_owners_ok [OF f1 ok]] by blast
  have v2: "x + 1 < width g1 \<Longrightarrow> valid_coordinate (width g1) (height g1) (x + 1) y"
    using yh f1 by (simp add: valid_coordinate_def same_frame_def not_le)
  from stranger_step [OF s2 v2] have f2: "same_frame g g2"
    using f1 by (blast intro: same_frame_trans)
  obtain g3 where
    s3: "(if y > 0 then update_strangers_boundary g2 pl x (y - 1) else Inr g2) = Inr g3"
    using stranger_step_total [OF same_frame_owners_ok [OF f2 ok]] by blast
  have v3: "y > 0 \<Longrightarrow> valid_coordinate (width g2) (height g2) x (y - 1)"
    using xw yh f2 unfolding valid_coordinate_def same_frame_def by unat_arith
  from stranger_step [OF s3 v3] have f3: "same_frame g g3"
    using f2 by (blast intro: same_frame_trans)
  obtain g4 where
    s4: "(if y + 1 < height g3 then update_strangers_boundary g3 pl x (y + 1) else Inr g3) = Inr g4"
    using stranger_step_total [OF same_frame_owners_ok [OF f3 ok]] by blast
  from s1 s2 s3 s4 show ?thesis
    by (simp add: update_strangers_def)
qed

subsection \<open>The block under \<open>update game's info\<close>\<close>

lemma diagonal_neighbours_set_player [simp]:
  "diagonal_neighbours (set_player g pl r) q x y = diagonal_neighbours g q x y"
  by (simp add: diagonal_neighbours_def)

lemma ucast_of_nat_small: "n \<le> 4 \<Longrightarrow> (ucast (of_nat n :: uint32_t) :: uint64_t) = of_nat n"
proof -
  assume "n \<le> 4"
  then have "unat (of_nat n :: uint32_t) = n" "unat (of_nat n :: uint64_t) = n"
    by (simp_all add: unat_of_nat)
  then show ?thesis
    by (simp add: word_unat_eq_iff unat_ucast_up)
qed

lemma update_info_alt:
  assumes valid: "valid_coordinate (width g) (height g) x y"
    and idx: "unat (pl - 1) < length (players g)"
  shows "update_info g pl x y = update_strangers (info_state g pl x y) pl x y"
proof -
  have "isSurrounded (board g) (ucast (width g)) (ucast (height g)) 0 (ucast x) (ucast y)
        = of_nat (owned_around g 0 x y)"
    using isSurrounded_owned_around [OF valid, of 0] by simp
  then have e: "(ucast (isSurrounded (board g) (ucast (width g)) (ucast (height g)) 0 (ucast x) (ucast y))
        :: uint64_t) = of_nat (owned_around g 0 x y)"
    by (simp add: ucast_of_nat_small owned_around_le)
  have "set_player (set_player g pl r) pl r' = set_player g pl r'" for r r'
    by (simp add: set_player_def)
  then show ?thesis
    using idx by (simp add: update_info_def info_state_def Let_def e)
qed

subsection \<open>The three branches of a move\<close>

lemma set_cell_twice [simp]: "set_cell (set_cell g x y c) x y c' = set_cell g x y c'"
  by (simp add: set_cell_def)

lemma find_neighbours_fields [simp]:
  "board (find_neighbours g pl x y) = board g"
  "players (find_neighbours g pl x y) = players g"
  "width (find_neighbours g pl x y) = width g"
  "height (find_neighbours g pl x y) = height g"
  "areas (find_neighbours g pl x y) = areas g"
  "players_num (find_neighbours g pl x y) = players_num g"
  "cell (find_neighbours g pl x y) x' y' = cell g x' y'"
  "the_player (find_neighbours g pl x y) q = the_player g q"
  by (simp_all add: find_neighbours_def Let_def cell_def the_player_def)

lemma owned_around_find_neighbours [simp]:
  "owned_around (find_neighbours g pl x y) q x' y' = owned_around g q x' y'"
  by (simp add: owned_around_def orthogonal_def)

lemma island_branch:
  assumes "unat (pl - 1) < length (players g)" and "owned_around g pl x y = 0"
  shows "branch_state g pl x y (island g pl x y)"
  using assms
  by (simp add: branch_state_def island_def Let_def board_set_cell)

lemma adjust_cases:
  "adjust g pl x y 0 = g \<or>
   (\<exists>t. adjust g pl x y 0 =
      set_player (set_cell g x y ((cell g x y)\<lparr>player := pl, parent_id := t\<rparr>)) pl
        ((the_player g pl)\<lparr>boundary := boundary (the_player g pl) - 1\<rparr>))"
proof -
  define R where "R r \<longleftrightarrow> r = g \<or>
     (\<exists>t. r = set_player (set_cell g x y ((cell g x y)\<lparr>player := pl, parent_id := t\<rparr>)) pl
        ((the_player g pl)\<lparr>boundary := boundary (the_player g pl) - 1\<rparr>))" for r
  have stop: "R (adjust g pl x y 4)"
    by (simp add: R_def adjust.simps [of g pl x y 4])
  have step: "R (adjust g pl x y i)" if "R (adjust g pl x y j)" and j: "j = i + 1" for i j
  proof (cases "i < 4 \<and> neighbours g ! i \<noteq> 0")
    case True
    then have "adjust g pl x y i =
        set_player (set_cell g x y ((cell g x y)\<lparr>player := pl, parent_id := neighbours g ! i\<rparr>)) pl
          ((the_player g pl)\<lparr>boundary := boundary (the_player g pl) - 1\<rparr>)"
      by (simp add: adjust.simps [of g pl x y i] Let_def)
    then show ?thesis
      unfolding R_def by blast
  next
    case False
    then have "adjust g pl x y i = adjust g pl x y (i + 1) \<or> adjust g pl x y i = g"
      by (auto simp add: adjust.simps [of g pl x y i])
    with that show ?thesis
      by (auto simp add: R_def)
  qed
  have "R (adjust g pl x y 3)" by (rule step [OF stop]) simp
  then have "R (adjust g pl x y 2)" by (rule step) simp
  then have "R (adjust g pl x y 1)" by (rule step) simp
  then have "R (adjust g pl x y 0)" by (rule step) simp
  then show ?thesis
    by (simp add: R_def)
qed

lemma adjust_branch:
  assumes idx: "unat (pl - 1) < length (players g)" and "owned_around g pl x y \<noteq> 0"
    and "player (cell g x y) \<noteq> pl"
    and h: "h = g \<or> h = set_player g pl ((the_player g pl)\<lparr>busy_areas := v\<rparr>)"
  shows "branch_state g pl x y (adjust h pl x y 0)"
proof -
  have hb: "branch_state g pl x y h"
  proof (cases "h = g")
    case True
    with assms(3) show ?thesis
      by (simp add: branch_state_def)
  next
    case False
    with h have "h = set_player g pl ((the_player g pl)\<lparr>busy_areas := v\<rparr>)" by simp
    with idx assms(3) show ?thesis
      by (simp add: branch_state_def)
  qed
  have hidx: "unat (pl - 1) < length (players h)"
    using h idx by auto
  have hc: "cell h x y = cell g x y"
    using h by auto
  from adjust_cases [of h pl x y] show ?thesis
  proof
    assume "adjust h pl x y 0 = h"
    with hb show ?thesis by simp
  next
    assume "\<exists>t. adjust h pl x y 0 =
      set_player (set_cell h x y ((cell h x y)\<lparr>player := pl, parent_id := t\<rparr>)) pl
        ((the_player h pl)\<lparr>boundary := boundary (the_player h pl) - 1\<rparr>)"
    then obtain t where "adjust h pl x y 0 =
      set_player (set_cell h x y ((cell h x y)\<lparr>player := pl, parent_id := t\<rparr>)) pl
        ((the_player h pl)\<lparr>boundary := boundary (the_player h pl) - 1\<rparr>)" ..
    moreover have "the_player h q = the_player g q" if "q \<noteq> pl" for q
      using hb that by (simp add: branch_state_def)
    moreover have "completed_moves (the_player h pl) = completed_moves (the_player g pl)"
      "boundary (the_player h pl) = boundary (the_player g pl)"
      "length (players h) = length (players g)" "width h = width g" "height h = height g"
      "areas h = areas g" "players_num h = players_num g" "board h = board g"
      using h idx by (auto simp add: branch_state_def)
    ultimately show ?thesis
      using hidx assms(2,3) hc
      by (simp add: branch_state_def board_set_cell)
  qed
qed


lemma BFS_length_players [simp]: "length (players (BFS g ident pl x y)) = length (players g)"
  by simp

lemma union_areas_branch:
  assumes idx: "unat (pl - 1) < length (players g)" and around: "owned_around g pl x y \<noteq> 0"
  shows "branch_state g pl x y (union_areas (find_neighbours g pl x y) pl x y k)"
proof -
  let ?g1 = "find_neighbours g pl x y"
  define g2 where "g2 = set_cell ?g1 x y ((cell ?g1 x y)\<lparr>player := pl, parent_id := set_id (neighbours ?g1)\<rparr>)"
  define g3 where "g3 = set_player g2 pl ((the_player g2 pl)
                 \<lparr>busy_areas := busy_areas (the_player g2 pl) - (different_areas (neighbours g2) k - 1)\<rparr>)"
  define g4 where "g4 = set_player g3 pl ((the_player g3 pl)\<lparr>boundary := boundary (the_player g3 pl) - 1\<rparr>)"
  define g5 where "g5 = BFS g4 (parent_id (cell g4 x y)) pl (x - 1) y"
  define g6 where "g6 = BFS g5 (parent_id (cell g5 x y)) pl (x + 1) y"
  define g7 where "g7 = BFS g6 (parent_id (cell g6 x y)) pl x (y - 1)"
  define g8 where "g8 = BFS g7 (parent_id (cell g7 x y)) pl x (y + 1)"
  have m: "union_areas ?g1 pl x y k = g8"
    by (simp add: union_areas_def Let_def g2_def g3_def g4_def g5_def g6_def g7_def g8_def)
  have idx2: "unat (pl - 1) < length (players g2)" "unat (pl - 1) < length (players g3)"
    using idx by (simp_all add: g2_def g3_def)
  have fields: "width g8 = width g" "height g8 = height g" "areas g8 = areas g"
    "players_num g8 = players_num g" "length (players g8) = length (players g)"
    by (simp_all add: g8_def g7_def g6_def g5_def g4_def g3_def g2_def)
  have pl8: "the_player g8 q = the_player g4 q" for q
    by (simp add: g8_def g7_def g6_def g5_def)
  have others: "the_player g4 q = the_player g q" if "q \<noteq> pl" for q
    using that idx2 by (simp add: g4_def g3_def g2_def)
  have mine: "completed_moves (the_player g4 pl) = completed_moves (the_player g pl)"
    "boundary (the_player g4 pl) = boundary (the_player g pl) - 1"
    using idx2 by (simp_all add: g4_def g3_def g2_def)
  have b4: "board g4 i j = (if i = unat x \<and> j = unat y
              then (cell g x y)\<lparr>player := pl, parent_id := set_id (neighbours ?g1)\<rparr>
              else board g i j)" for i j
    by (simp add: g4_def g3_def g2_def board_set_cell)
  have own8: "player (board g8 i j) = player (board g4 i j)" for i j
    by (simp add: g8_def g7_def g6_def g5_def)
  have other8: "board g8 i j = board g4 i j" if "player (board g4 i j) \<noteq> pl" for i j
  proof -
    have "board g5 i j = board g4 i j" using that by (simp add: g5_def BFS_other)
    moreover have "board g6 i j = board g5 i j" using that by (simp add: g6_def g5_def BFS_other)
    moreover have "board g7 i j = board g6 i j" using that by (simp add: g7_def g6_def g5_def BFS_other)
    moreover have "board g8 i j = board g7 i j"
      using that by (simp add: g8_def g7_def g6_def g5_def BFS_other)
    ultimately show ?thesis by simp
  qed
  have here: "player (cell g8 x y) = pl"
    using own8 [of "unat x" "unat y"] b4 [of "unat x" "unat y"] by (simp add: cell_def)
  have "\<forall>i j. (i, j) \<noteq> (unat x, unat y) \<longrightarrow> player (board g8 i j) = player (board g i j)"
    by (auto simp add: own8 b4)
  moreover have "\<forall>i j. player (board g8 i j) \<noteq> pl \<longrightarrow> board g8 i j = board g i j"
  proof (intro allI impI)
    fix i j
    assume ne: "player (board g8 i j) \<noteq> pl"
    then have ne4: "player (board g4 i j) \<noteq> pl" by (simp add: own8)
    then have "\<not> (i = unat x \<and> j = unat y)" using b4 [of i j] by auto
    with other8 [OF ne4] b4 [of i j] show "board g8 i j = board g i j" by simp
  qed
  ultimately show ?thesis
    using fields others mine here around
    by (simp add: branch_state_def m pl8)
qed


subsection \<open>The outcomes of \<open>game_move\<close>\<close>

lemma game_move_rejected:
  "players_num g < pl \<or> \<not> valid_coordinate (width g) (height g) x y \<or> player (cell g x y) \<noteq> 0
   \<Longrightarrow> game_move g pl x y = Inr (False, g)"
  by (auto simp add: game_move_def)

lemma game_move_zero:
  assumes "wf_game g" and "valid_coordinate (width g) (height g) x y" and "player (cell g x y) = 0"
  shows "game_move g 0 x y = Inl OutOfBounds"
proof -
  have "unat ((0 :: uint32_t) - 1) = 4294967295"
    by (simp add: unsigned_minus_1_eq_mask mask_eq_exp_minus_1)
  moreover have "length (players g) < 4294967296"
    using assms(1) unat_lt_32 [of "players_num g"] by (simp add: wf_game_def)
  ultimately have "\<not> unat ((0 :: uint32_t) - 1) < length (players g)" by simp
  with assms(2,3) show ?thesis
    by (simp add: game_move_def)
qed

lemma game_move_quota:
  assumes "wf_game g" and "0 < pl" and "pl \<le> players_num g"
    and valid: "valid_coordinate (width g) (height g) x y" and "player (cell g x y) = 0"
    and "owned_around g pl x y = 0" and "busy_areas (the_player g pl) = areas g"
  shows "game_move g pl x y = Inr (False, g)"
proof -
  from assms(3) have "\<not> players_num g < pl" by simp
  with assms player_index [OF assms(1-3)] show ?thesis
    by (simp add: game_move_def isSurrounded_zero_iff [OF valid])
qed

lemma game_move_accept:
  assumes "wf_game g" and "0 < pl" and "pl \<le> players_num g"
    and valid: "valid_coordinate (width g) (height g) x y" and empty: "player (cell g x y) = 0"
    and "\<not> (owned_around g pl x y = 0 \<and> busy_areas (the_player g pl) = areas g)"
  shows "\<exists>m. branch_state g pl x y m \<and>
           game_move g pl x y =
             (case update_info m pl x y of Inl e \<Rightarrow> Inl e | Inr g' \<Rightarrow> Inr (True, g'))"
proof -
  note idx = player_index [OF assms(1-3)]
  from assms(3) have le: "\<not> players_num g < pl" by simp
  from assms(2) empty have ne: "player (cell g x y) \<noteq> pl" by auto
  let ?around = "isSurrounded (board g) (ucast (width g)) (ucast (height g))
                        (ucast pl) (ucast x) (ucast y)"
  let ?g1 = "find_neighbours g pl x y"
  show ?thesis
  proof (cases "owned_around g pl x y = 0")
    case True
    with assms(6) have "busy_areas (the_player g pl) \<noteq> areas g" by simp
    with True le valid empty idx
    have "game_move g pl x y =
        (case update_info (island g pl x y) pl x y of Inl e \<Rightarrow> Inl e | Inr g' \<Rightarrow> Inr (True, g'))"
      by (simp add: game_move_def isSurrounded_zero_iff [OF valid])
    with island_branch [OF idx True] show ?thesis by blast
  next
    case False
    then have nz: "?around \<noteq> 0"
      by (simp add: isSurrounded_zero_iff [OF valid])
    show ?thesis
    proof (cases "different_areas (neighbours ?g1) ?around = 1")
      case True
      let ?h = "if ?around > 1
                then set_player ?g1 pl ((the_player ?g1 pl)
                       \<lparr>busy_areas := busy_areas (the_player ?g1 pl) - (?around - 1)\<rparr>)
                else ?g1"
      from True nz le valid empty idx
      have mv: "game_move g pl x y =
          (case update_info (adjust ?h pl x y 0) pl x y of Inl e \<Rightarrow> Inl e | Inr g' \<Rightarrow> Inr (True, g'))"
        by (simp add: game_move_def Let_def)
      have idx1: "unat (pl - 1) < length (players ?g1)" using idx by simp
      have around1: "owned_around ?g1 pl x y \<noteq> 0" using False by simp
      have ne1: "player (cell ?g1 x y) \<noteq> pl" using ne by simp
      have "?h = ?g1 \<or> ?h = set_player ?g1 pl ((the_player ?g1 pl)
              \<lparr>busy_areas := busy_areas (the_player ?g1 pl) - (?around - 1)\<rparr>)"
        by simp
      from adjust_branch [OF idx1 around1 ne1 this]
      have "branch_state ?g1 pl x y (adjust ?h pl x y 0)" .
      then have "branch_state g pl x y (adjust ?h pl x y 0)"
        by (simp add: branch_state_def)
      with mv show ?thesis by blast
    next
      case diff: False
      from diff nz le valid empty idx
      have mv: "game_move g pl x y =
          (case update_info (union_areas ?g1 pl x y ?around) pl x y of
             Inl e \<Rightarrow> Inl e | Inr g' \<Rightarrow> Inr (True, g'))"
        by (simp add: game_move_def Let_def)
      with union_areas_branch [OF idx False] show ?thesis by blast
    qed
  qed
qed

subsection \<open>Accepted moves\<close>

lemma same_frame_wf: "same_frame g g' \<Longrightarrow> wf_game g \<Longrightarrow> wf_game g'"
  by (simp add: same_frame_def wf_game_def)

lemma branch_state_wf:
  assumes "wf_game g" and "pl \<le> players_num g" and "branch_state g pl x y m"
  shows "wf_game m"
  unfolding wf_game_def
proof (intro conjI allI impI)
  show "length (players m) = unat (players_num m)"
    using assms(1,3) by (simp add: wf_game_def branch_state_def)
next
  fix i j
  assume "i < unat (width m)" "j < unat (height m)"
  then have "player (board g i j) \<le> players_num g"
    using assms(1,3) by (simp add: wf_game_def branch_state_def)
  moreover have "player (board m i j) = pl \<or> board m i j = board g i j"
    using assms(3) by (auto simp add: branch_state_def)
  ultimately show "player (board m i j) \<le> players_num m"
    using assms(2,3) by (auto simp add: branch_state_def)
qed

lemma info_state_frame:
  "same_frame m (info_state m pl x y)"
  by (simp add: same_frame_def info_state_def)

lemma info_state_player:
  "unat (pl - 1) < length (players m) \<Longrightarrow>
   the_player (info_state m pl x y) q =
     (if q = pl
      then (the_player m pl)
        \<lparr>completed_moves := completed_moves (the_player m pl) + 1,
         boundary := boundary (the_player m pl) + of_nat (owned_around m 0 x y)
            - ucast (common_free_fields (board m) (width m) (height m) pl x y)
            - ucast (diagonal_neighbours m pl x y)\<rparr>
      else the_player m q)"
  by (simp add: info_state_def)

lemma owned_around_branch:
  assumes "branch_state g pl x y m"
  shows "owned_around m q x y = owned_around g q x y"
proof -
  have "width m = width g" "height m = height g"
    and "\<And>i j. (i, j) \<noteq> (unat x, unat y) \<Longrightarrow> player (board m i j) = player (board g i j)"
    using assms by (simp_all add: branch_state_def)
  then show ?thesis
    by (simp add: owned_around_def orthogonal_def)
qed

lemma common_free_fields_branch:
  assumes "branch_state g pl x y m"
  shows "common_free_fields (board m) (width m) (height m) q x y
         = common_free_fields (board g) (width g) (height g) q x y"
proof -
  have d: "width m = width g" "height m = height g"
    and o: "\<And>i j. (i, j) \<noteq> (unat x, unat y) \<Longrightarrow> player (board m i j) = player (board g i j)"
    using assms by (simp_all add: branch_state_def)
  have "unat (x - 2) \<noteq> unat x" "unat (x + 2) \<noteq> unat x" "unat (y - 2) \<noteq> unat y" "unat (y + 2) \<noteq> unat y"
    by (simp_all add: word_unat_eq_iff [symmetric])
  then show ?thesis
    by (simp add: common_free_fields_def d o)
qed

lemma diagonal_neighbours_branch:
  assumes "branch_state g pl x y m"
  shows "diagonal_neighbours m q x y = diagonal_neighbours g q x y"
proof -
  have d: "width m = width g" "height m = height g"
    and o: "\<And>i j. (i, j) \<noteq> (unat x, unat y) \<Longrightarrow> player (board m i j) = player (board g i j)"
    using assms by (simp_all add: branch_state_def)
  have "unat (x - 1) \<noteq> unat x" "unat (x + 1) \<noteq> unat x" "unat (y - 1) \<noteq> unat y" "unat (y + 1) \<noteq> unat y"
    by (simp_all add: word_unat_eq_iff [symmetric])
  then show ?thesis
    by (simp add: diagonal_neighbours_def cell_def d o)
qed

lemma game_move_accepted:
  assumes wf: "wf_game g" and pl: "0 < pl" "pl \<le> players_num g"
    and valid: "valid_coordinate (width g) (height g) x y" and empty: "player (cell g x y) = 0"
    and room: "\<not> (owned_around g pl x y = 0 \<and> busy_areas (the_player g pl) = areas g)"
  shows "\<exists>m g'. branch_state g pl x y m \<and> game_move g pl x y = Inr (True, g') \<and>
           board g' = board m \<and> wf_game g' \<and>
           (\<forall>q. the_player g' q =
              (if q = pl
               then (the_player m pl)
                 \<lparr>completed_moves := completed_moves (the_player m pl) + 1,
                  boundary := boundary (the_player m pl) + of_nat (owned_around g 0 x y)
                     - ucast (common_free_fields (board g) (width g) (height g) pl x y)
                     - ucast (diagonal_neighbours g pl x y)\<rparr>
               else (the_player m q)\<lparr>boundary := boundary (the_player m q)
                     - (if q \<noteq> 0 then of_nat (owned_around g q x y) else 0)\<rparr>))"
proof -
  from game_move_accept [OF wf pl valid empty room] obtain m where
    m: "branch_state g pl x y m" and
    mv: "game_move g pl x y =
           (case update_info m pl x y of Inl e \<Rightarrow> Inl e | Inr g' \<Rightarrow> Inr (True, g'))"
    by blast
  have wfm: "wf_game m" by (rule branch_state_wf [OF wf pl(2) m])
  have dims: "width m = width g" "height m = height g" "length (players m) = length (players g)"
    using m by (simp_all add: branch_state_def)
  have validm: "valid_coordinate (width m) (height m) x y" using valid dims by simp
  have idx: "unat (pl - 1) < length (players m)"
    using player_index [OF wf pl] dims by simp
  let ?s = "info_state m pl x y"
  have fs: "same_frame m ?s" by (rule info_state_frame)
  have wfs: "wf_game ?s" by (rule same_frame_wf [OF fs wfm])
  have valids: "valid_coordinate (width ?s) (height ?s) x y"
    using validm fs by (simp add: same_frame_def)
  obtain g' where run: "update_strangers ?s pl x y = Inr g'"
    using update_strangers_total [OF valids wf_game_owners_ok [OF wfs]] by blast
  note eff = update_strangers_Inr [OF valids run]
  have mv': "game_move g pl x y = Inr (True, g')"
    using mv run by (simp add: update_info_alt [OF validm idx])
  have fg: "same_frame ?s g'" using eff by simp
  have wfg: "wf_game g'" by (rule same_frame_wf [OF fg wfs])
  have bd: "board g' = board m"
    using fg fs by (simp add: same_frame_def)
  have oa: "owned_around ?s q x y = owned_around g q x y" for q
    using same_frame_owned_around [OF fs] owned_around_branch [OF m] by simp
  have "the_player g' q =
              (if q = pl
               then (the_player m pl)
                 \<lparr>completed_moves := completed_moves (the_player m pl) + 1,
                  boundary := boundary (the_player m pl) + of_nat (owned_around g 0 x y)
                     - ucast (common_free_fields (board g) (width g) (height g) pl x y)
                     - ucast (diagonal_neighbours g pl x y)\<rparr>
               else (the_player m q)\<lparr>boundary := boundary (the_player m q)
                     - (if q \<noteq> 0 then of_nat (owned_around g q x y) else 0)\<rparr>)" for q
    using eff
    by (simp add: oa info_state_player [OF idx] owned_around_branch [OF m]
        common_free_fields_branch [OF m] diagonal_neighbours_branch [OF m])
  with m mv' bd wfg show ?thesis by blast
qed

lemma game_move_True:
  assumes wf: "wf_game g" and mv: "game_move g pl x y = Inr (True, g')"
  shows "0 < pl \<and> pl \<le> players_num g \<and> valid_coordinate (width g) (height g) x y \<and>
         player (cell g x y) = 0 \<and>
         \<not> (owned_around g pl x y = 0 \<and> busy_areas (the_player g pl) = areas g)"
proof -
  have a: "\<not> (players_num g < pl \<or> \<not> valid_coordinate (width g) (height g) x y \<or> player (cell g x y) \<noteq> 0)"
    using game_move_rejected [of g pl x y] mv by auto
  then have valid: "valid_coordinate (width g) (height g) x y" and empty: "player (cell g x y) = 0"
    and le: "pl \<le> players_num g"
    by auto
  have pos: "0 < pl"
    using game_move_zero [OF wf valid empty] mv by (cases "pl = 0") (auto simp: word_greater_zero_iff)
  have "\<not> (owned_around g pl x y = 0 \<and> busy_areas (the_player g pl) = areas g)"
    using game_move_quota [OF wf pos le valid empty] mv by auto
  with pos le valid empty show ?thesis by simp
qed

lemma game_move_wf:
  assumes wf: "wf_game g" and mv: "game_move g pl x y = Inr (r, g')"
  shows "wf_game g'"
proof (cases r)
  case True
  with mv have t: "game_move g pl x y = Inr (True, g')" by simp
  from game_move_True [OF wf t] have pos: "0 < pl" and le: "pl \<le> players_num g"
    and valid: "valid_coordinate (width g) (height g) x y" and empty: "player (cell g x y) = 0"
    and room: "\<not> (owned_around g pl x y = 0 \<and> busy_areas (the_player g pl) = areas g)"
    by simp_all
  from game_move_accepted [OF wf pos le valid empty room] obtain h where
    "game_move g pl x y = Inr (True, h)" and "wf_game h"
    by blast
  with t show ?thesis by simp
next
  case False
  have "game_move g pl x y = Inr (False, g) \<or> (\<exists>h. game_move g pl x y = Inr (True, h)) \<or>
        game_move g pl x y = Inl OutOfBounds"
  proof (cases "players_num g < pl \<or> \<not> valid_coordinate (width g) (height g) x y \<or> player (cell g x y) \<noteq> 0")
    case True
    then show ?thesis using game_move_rejected [of g pl x y] by simp
  next
    case ok: False
    show ?thesis
    proof (cases "pl = 0")
      case True
      with ok game_move_zero [OF wf, of x y] show ?thesis by simp
    next
      case nz: False
      then have pos: "0 < pl" by (simp add: word_greater_zero_iff)
      from ok have le: "pl \<le> players_num g" by (simp add: not_less)
      show ?thesis
      proof (cases "owned_around g pl x y = 0 \<and> busy_areas (the_player g pl) = areas g")
        case True
        with game_move_quota [OF wf pos le] ok show ?thesis by simp
      next
        case False
        with game_move_accepted [OF wf pos le] ok show ?thesis by blast
      qed
    qed
  qed
  with mv False wf show ?thesis by auto
qed

lemma reachable_wf: "reachable g \<Longrightarrow> wf_game g"
  by (induction rule: reachable.induct) (auto intro: wf_game_new game_move_wf)

lemma reachable_game_moves:
  "reachable g \<Longrightarrow> game_moves g ms = Inr g' \<Longrightarrow> reachable g'"
proof (induction ms arbitrary: g)
  case Nil
  then show ?case by simp
next
  case (Cons m ms)
  obtain pl x y where m: "m = (pl, x, y)" by (cases m)
  from Cons.prems(2) obtain r h where
    step: "game_move g pl x y = Inr (r, h)" and rest: "game_moves h ms = Inr g'"
    by (auto simp add: m split: sum.splits)
  from reachable.moved [OF Cons.prems(1) step] have "reachable h" .
  from Cons.IH [OF this rest] show ?case .
qed

subsection \<open>Concrete games\<close>

lemma reachable_after_moves:
  assumes "g0 \<noteq> None" and "\<not> isl (game_moves (the g0) ms)" and "g0 = game_new w h pls ars"
  shows "reachable (after_moves g0 ms)"
proof -
  from assms(1,3) have "game_new w h pls ars = Some (the g0)" by simp
  then have "reachable (the g0)" by (rule reachable.fresh)
  moreover from assms(2) have "game_moves (the g0) ms = Inr (after_moves g0 ms)"
    by (simp add: after_moves_def)
  ultimately show ?thesis by (rule reachable_game_moves)
qed

lemma accepted_after_move:
  assumes "\<not> isl (game_move g pl x y)" and "fst (projr (game_move g pl x y))"
  shows "game_move g pl x y = Inr (True, after_move g pl x y)"
proof -
  from assms(1) have "game_move g pl x y = Inr (projr (game_move g pl x y))" by simp
  with assms(2) show ?thesis
    by (metis after_move_def prod.collapse)
qed

subsection \<open>The claims about accepted moves\<close>

text \<open>
  C6, as amended. Over an accepted move the \<open>boundary\<close> of the moving player goes up by
  the number of empty squares next to \<open>(x, y)\<close> and down by \<open>common_free_fields\<close> and
  by \<open>diagonal_neighbours\<close>, all counted on the board before the move; in the branches
  that extend or unite areas it goes down by 1 more when the square is taken. The
  \<open>boundary\<close> of every other player \<open>q\<close> goes down by the number of \<open>q\<close>'s squares next
  to \<open>(x, y)\<close>. All of it is \<open>uint64_t\<close> arithmetic.
\<close>

theorem game_move_ledger:
  assumes wf: "wf_game g" and mv: "game_move g pl x y = Inr (True, g')"
  shows "boundary (the_player g' pl) =
           boundary (the_player g pl)
           - (if owned_around g pl x y \<noteq> 0 \<and> player (cell g' x y) = pl then 1 else 0)
           + of_nat (owned_around g 0 x y)
           - ucast (common_free_fields (board g) (width g) (height g) pl x y)
           - ucast (diagonal_neighbours g pl x y) \<and>
         (\<forall>q. q \<noteq> pl \<and> 0 < q \<and> q \<le> players_num g \<longrightarrow>
            boundary (the_player g' q) = boundary (the_player g q) - of_nat (owned_around g q x y))"
proof -
  from game_move_True [OF wf mv] have pos: "0 < pl" and le: "pl \<le> players_num g"
    and valid: "valid_coordinate (width g) (height g) x y" and empty: "player (cell g x y) = 0"
    and room: "\<not> (owned_around g pl x y = 0 \<and> busy_areas (the_player g pl) = areas g)"
    by simp_all
  from game_move_accepted [OF wf pos le valid empty room] mv obtain m where
    m: "branch_state g pl x y m" and bd: "board g' = board m" and
    pls: "\<And>q. the_player g' q =
              (if q = pl
               then (the_player m pl)
                 \<lparr>completed_moves := completed_moves (the_player m pl) + 1,
                  boundary := boundary (the_player m pl) + of_nat (owned_around g 0 x y)
                     - ucast (common_free_fields (board g) (width g) (height g) pl x y)
                     - ucast (diagonal_neighbours g pl x y)\<rparr>
               else (the_player m q)\<lparr>boundary := boundary (the_player m q)
                     - (if q \<noteq> 0 then of_nat (owned_around g q x y) else 0)\<rparr>)"
    by auto
  have c: "cell g' x y = cell m x y"
    using bd by (simp add: cell_def)
  have "boundary (the_player m pl) = boundary (the_player g pl)
        - (if owned_around g pl x y \<noteq> 0 \<and> player (cell m x y) = pl then 1 else 0)"
    using m by (simp add: branch_state_def)
  with pls [of pl] c have mine: "boundary (the_player g' pl) =
           boundary (the_player g pl)
           - (if owned_around g pl x y \<noteq> 0 \<and> player (cell g' x y) = pl then 1 else 0)
           + of_nat (owned_around g 0 x y)
           - ucast (common_free_fields (board g) (width g) (height g) pl x y)
           - ucast (diagonal_neighbours g pl x y)"
    by simp
  have "boundary (the_player g' q) = boundary (the_player g q) - of_nat (owned_around g q x y)"
    if q: "q \<noteq> pl \<and> 0 < q \<and> q \<le> players_num g" for q
  proof -
    from q have "the_player m q = the_player g q"
      using m by (simp add: branch_state_def)
    with q pls [of q] show ?thesis by auto
  qed
  with mine show ?thesis by blast
qed

theorem game_move_ledger_witness:
  "wf_game (after_moves (game_new 3 3 2 2) [(1, 0, 0), (2, 1, 1)]) \<and>
   game_move (after_moves (game_new 3 3 2 2) [(1, 0, 0), (2, 1, 1)]) 1 0 1 =
     Inr (True, after_move (after_moves (game_new 3 3 2 2) [(1, 0, 0), (2, 1, 1)]) 1 0 1) \<and>
   boundary (the_player (after_moves (game_new 3 3 2 2) [(1, 0, 0), (2, 1, 1)]) 1) = 2 \<and>
   boundary (the_player (after_move (after_moves (game_new 3 3 2 2) [(1, 0, 0), (2, 1, 1)]) 1 0 1) 1)
     = 2 - 1 + 1 - 0 - 0 \<and>
   boundary (the_player (after_moves (game_new 3 3 2 2) [(1, 0, 0), (2, 1, 1)]) 2) = 4 \<and>
   boundary (the_player (after_move (after_moves (game_new 3 3 2 2) [(1, 0, 0), (2, 1, 1)]) 1 0 1) 2)
     = 4 - 1"
proof -
  let ?g = "after_moves (game_new 3 3 2 2) [(1, 0, 0), (2, 1, 1)]"
  let ?g' = "after_move ?g 1 0 1"
  have "game_new 3 3 2 2 \<noteq> None"
    "\<not> isl (game_moves (the (game_new 3 3 2 2)) [(1, 0, 0), (2, 1, 1)])"
    by code_simp+
  then have wf: "wf_game ?g"
    by (intro reachable_wf reachable_after_moves [OF _ _ refl])
  have "\<not> isl (game_move ?g 1 0 1)" "fst (projr (game_move ?g 1 0 1))"
    by code_simp+
  then have mv: "game_move ?g 1 0 1 = Inr (True, ?g')"
    by (rule accepted_after_move)
  have before: "boundary (the_player ?g 1) = 2" "boundary (the_player ?g 2) = 4"
    "owned_around ?g 1 0 1 = 1" "owned_around ?g 0 0 1 = 1" "owned_around ?g 2 0 1 = 1"
    "common_free_fields (board ?g) (width ?g) (height ?g) 1 0 1 = 0"
    "diagonal_neighbours ?g 1 0 1 = 0" "players_num ?g = 2" "player (cell ?g' 0 1) = 1"
    by code_simp+
  have q: "(2 :: uint32_t) \<noteq> 1 \<and> (0 :: uint32_t) < 2 \<and> (2 :: uint32_t) \<le> players_num ?g"
    by (simp add: before)
  with game_move_ledger [OF wf mv] before
  have "boundary (the_player ?g' 1) = 2 - 1 + 1 - 0 - 0" and "boundary (the_player ?g' 2) = 4 - 1"
    by (auto simp del: One_nat_def)
  with wf mv before show ?thesis by simp
qed

text \<open>
  What \<open>game_move\<close> returns in a reachable game where the \<open>busy_areas\<close> of player
  \<open>pl\<close> equals \<open>areas\<close>, for an empty square of the board: \<open>false\<close> with the game
  as it was when none of the squares next to it is \<open>pl\<close>'s, and \<open>true\<close> when one is.
\<close>

lemma game_move_at_quota:
  assumes "reachable g" and "0 < pl" and "pl \<le> players_num g"
    and "busy_areas (the_player g pl) = areas g"
    and "valid_coordinate (width g) (height g) x y" and "player (cell g x y) = 0"
  shows "(owned_around g pl x y = 0 \<longrightarrow> game_move g pl x y = Inr (False, g)) \<and>
         (owned_around g pl x y \<noteq> 0 \<longrightarrow> (\<exists>g'. game_move g pl x y = Inr (True, g')))"
proof -
  have wf: "wf_game g" by (rule reachable_wf [OF assms(1)])
  have "game_move g pl x y = Inr (False, g)" if "owned_around g pl x y = 0"
    using game_move_quota [OF wf assms(2,3,5,6) that assms(4)] .
  moreover have "\<exists>g'. game_move g pl x y = Inr (True, g')" if "owned_around g pl x y \<noteq> 0"
  proof -
    from that have "\<not> (owned_around g pl x y = 0 \<and> busy_areas (the_player g pl) = areas g)"
      by simp
    from game_move_accepted [OF wf assms(2,3,5,6) this] show ?thesis by blast
  qed
  ultimately show ?thesis by blast
qed

text \<open>
  For a player from 1 on, \<open>game_move\<close> refuses for four reasons (a player above
  \<open>players_num\<close>, a square off the board, a taken square, a new area with none left)
  and then leaves the game as it was; every other call is accepted.
\<close>

lemma game_move_decision:
  assumes wf: "wf_game g" and pos: "0 < pl"
  shows "(if players_num g < pl \<or> \<not> valid_coordinate (width g) (height g) x y \<or>
             player (cell g x y) \<noteq> 0 \<or>
             (owned_around g pl x y = 0 \<and> busy_areas (the_player g pl) = areas g)
          then game_move g pl x y = Inr (False, g)
          else (\<exists>g'. game_move g pl x y = Inr (True, g')))"
proof (cases "players_num g < pl \<or> \<not> valid_coordinate (width g) (height g) x y \<or> player (cell g x y) \<noteq> 0")
  case True
  then have c: "players_num g < pl \<or> \<not> valid_coordinate (width g) (height g) x y \<or>
             player (cell g x y) \<noteq> 0 \<or>
             (owned_around g pl x y = 0 \<and> busy_areas (the_player g pl) = areas g)"
    by blast
  show ?thesis
    using game_move_rejected [OF True] by (simp only: c if_True)
next
  case ok: False
  then have le: "pl \<le> players_num g" and valid: "valid_coordinate (width g) (height g) x y"
    and empty: "player (cell g x y) = 0"
    by (simp_all add: not_less)
  show ?thesis
  proof (cases "owned_around g pl x y = 0 \<and> busy_areas (the_player g pl) = areas g")
    case True
    then have c: "players_num g < pl \<or> \<not> valid_coordinate (width g) (height g) x y \<or>
             player (cell g x y) \<noteq> 0 \<or>
             (owned_around g pl x y = 0 \<and> busy_areas (the_player g pl) = areas g)"
      by blast
    from True have "game_move g pl x y = Inr (False, g)"
      using game_move_quota [OF wf pos le valid empty] by simp
    then show ?thesis by (simp only: c if_True)
  next
    case False
    with ok have c: "\<not> (players_num g < pl \<or> \<not> valid_coordinate (width g) (height g) x y \<or>
             player (cell g x y) \<noteq> 0 \<or>
             (owned_around g pl x y = 0 \<and> busy_areas (the_player g pl) = areas g))"
      by blast
    from game_move_accepted [OF wf pos le valid empty False]
    have "\<exists>g'. game_move g pl x y = Inr (True, g')" by blast
    then show ?thesis by (simp only: c if_False)
  qed
qed

subsection \<open>Where the code leaves the specification\<close>

text \<open>
  C1 at the call \<open>game_move(g, 0, 0, 0)\<close> on a new 2 by 2 game with one player. The claim
  has the call return \<open>false\<close> and leave the game as it was. The call passes the three
  tests (line 303 compares \<open>players_num < player\<close> only) and goes on to
  \<open>g->players[player - 1]\<close> with the index \<open>2^32 - 1\<close>, outside the array.
\<close>

theorem game_move_player_zero:
  "game_move (the (game_new 2 2 1 1)) 0 0 0 = Inl OutOfBounds"
proof -
  obtain g where g: "game_new 2 2 1 1 = Some g"
    by (simp add: game_new_def MAX_PLAYERS_def)
  note v = game_new_Some [OF g]
  have "game_move g 0 0 0 = Inl OutOfBounds"
    using v by (intro game_move_zero wf_game_new [OF g]) (simp_all add: valid_coordinate_def cell_def)
  with g show ?thesis by simp
qed

text \<open>
  C2 at two accepted moves that join two areas of player 1. On the 10 by 10 board of the
  example, after \<open>(0,0)\<close> and \<open>(0,2)\<close> the move to \<open>(0,1)\<close> lowers \<open>busy_areas\<close> from 2
  to 1, but the three squares of the joined column keep the tags 1, 1 and 2. On a 3 by 3
  board with the areas \<open>{(0,0),(0,1),(1,0)}\<close> (tag 1) and \<open>{(2,2),(2,1),(1,2)}\<close> (tag 2),
  the move to \<open>(1,1)\<close> has four neighbours of player 1 and lowers \<open>busy_areas\<close> from 2 by
  3, to \<open>2^32 - 1\<close>.
\<close>

theorem merge_of_two_areas:
  "game_move (after_moves (game_new 10 10 2 3) [(1, 0, 0), (1, 0, 2)]) 1 0 1 =
     Inr (True, after_move (after_moves (game_new 10 10 2 3) [(1, 0, 0), (1, 0, 2)]) 1 0 1) \<and>
   map (\<lambda>y. cell (after_moves (game_new 10 10 2 3) [(1, 0, 0), (1, 0, 2)]) 0 y) [0, 1, 2] =
     [\<lparr>player = 1, parent_id = 1\<rparr>, \<lparr>player = 0, parent_id = 0\<rparr>, \<lparr>player = 1, parent_id = 2\<rparr>] \<and>
   busy_areas (the_player (after_moves (game_new 10 10 2 3) [(1, 0, 0), (1, 0, 2)]) 1) = 2 \<and>
   busy_areas (the_player
     (after_move (after_moves (game_new 10 10 2 3) [(1, 0, 0), (1, 0, 2)]) 1 0 1) 1) = 1 \<and>
   map (\<lambda>y. cell (after_move (after_moves (game_new 10 10 2 3) [(1, 0, 0), (1, 0, 2)]) 1 0 1) 0 y)
     [0, 1, 2] =
     [\<lparr>player = 1, parent_id = 1\<rparr>, \<lparr>player = 1, parent_id = 1\<rparr>, \<lparr>player = 1, parent_id = 2\<rparr>] \<and>
   game_move (after_moves (game_new 3 3 1 2)
       [(1, 0, 0), (1, 0, 1), (1, 1, 0), (1, 2, 2), (1, 2, 1), (1, 1, 2)]) 1 1 1 =
     Inr (True, after_move (after_moves (game_new 3 3 1 2)
       [(1, 0, 0), (1, 0, 1), (1, 1, 0), (1, 2, 2), (1, 2, 1), (1, 1, 2)]) 1 1 1) \<and>
   map (\<lambda>(x, y). cell (after_moves (game_new 3 3 1 2)
       [(1, 0, 0), (1, 0, 1), (1, 1, 0), (1, 2, 2), (1, 2, 1), (1, 1, 2)]) x y)
     [(0, 2), (1, 2), (2, 2), (0, 1), (1, 1), (2, 1), (0, 0), (1, 0), (2, 0)] =
     [\<lparr>player = 0, parent_id = 0\<rparr>, \<lparr>player = 1, parent_id = 2\<rparr>, \<lparr>player = 1, parent_id = 2\<rparr>,
      \<lparr>player = 1, parent_id = 1\<rparr>, \<lparr>player = 0, parent_id = 0\<rparr>, \<lparr>player = 1, parent_id = 2\<rparr>,
      \<lparr>player = 1, parent_id = 1\<rparr>, \<lparr>player = 1, parent_id = 1\<rparr>, \<lparr>player = 0, parent_id = 0\<rparr>] \<and>
   busy_areas (the_player (after_moves (game_new 3 3 1 2)
       [(1, 0, 0), (1, 0, 1), (1, 1, 0), (1, 2, 2), (1, 2, 1), (1, 1, 2)]) 1) = 2 \<and>
   busy_areas (the_player (after_move (after_moves (game_new 3 3 1 2)
       [(1, 0, 0), (1, 0, 1), (1, 1, 0), (1, 2, 2), (1, 2, 1), (1, 1, 2)]) 1 1 1) 1) = 4294967295"
proof -
  let ?a = "after_moves (game_new 10 10 2 3) [(1, 0, 0), (1, 0, 2)]"
  let ?b = "after_moves (game_new 3 3 1 2)
       [(1, 0, 0), (1, 0, 1), (1, 1, 0), (1, 2, 2), (1, 2, 1), (1, 1, 2)]"
  have "\<not> isl (game_move ?a 1 0 1)" "fst (projr (game_move ?a 1 0 1))"
    by code_simp+
  then have a: "game_move ?a 1 0 1 = Inr (True, after_move ?a 1 0 1)"
    by (rule accepted_after_move)
  have "\<not> isl (game_move ?b 1 1 1)" "fst (projr (game_move ?b 1 1 1))"
    by code_simp+
  then have b: "game_move ?b 1 1 1 = Inr (True, after_move ?b 1 1 1)"
    by (rule accepted_after_move)
  have "map (\<lambda>y. cell ?a 0 y) [0, 1, 2] =
     [\<lparr>player = 1, parent_id = 1\<rparr>, \<lparr>player = 0, parent_id = 0\<rparr>, \<lparr>player = 1, parent_id = 2\<rparr>]"
    "busy_areas (the_player ?a 1) = 2" "busy_areas (the_player (after_move ?a 1 0 1) 1) = 1"
    "map (\<lambda>y. cell (after_move ?a 1 0 1) 0 y) [0, 1, 2] =
     [\<lparr>player = 1, parent_id = 1\<rparr>, \<lparr>player = 1, parent_id = 1\<rparr>, \<lparr>player = 1, parent_id = 2\<rparr>]"
    "map (\<lambda>(x, y). cell ?b x y)
     [(0, 2), (1, 2), (2, 2), (0, 1), (1, 1), (2, 1), (0, 0), (1, 0), (2, 0)] =
     [\<lparr>player = 0, parent_id = 0\<rparr>, \<lparr>player = 1, parent_id = 2\<rparr>, \<lparr>player = 1, parent_id = 2\<rparr>,
      \<lparr>player = 1, parent_id = 1\<rparr>, \<lparr>player = 0, parent_id = 0\<rparr>, \<lparr>player = 1, parent_id = 2\<rparr>,
      \<lparr>player = 1, parent_id = 1\<rparr>, \<lparr>player = 1, parent_id = 1\<rparr>, \<lparr>player = 0, parent_id = 0\<rparr>]"
    "busy_areas (the_player ?b 1) = 2"
    "busy_areas (the_player (after_move ?b 1 1 1) 1) = 4294967295"
    by code_simp+
  with a b show ?thesis by simp
qed

text \<open>
  C5 at the game that six accepted moves of player 1 reach on a 3 by 4 board with one
  area allowed: the squares \<open>(0,0)\<close>, \<open>(1,0)\<close>, \<open>(1,1)\<close>, \<open>(0,1)\<close>, \<open>(2,0)\<close>, \<open>(2,1)\<close>
  form one area, the fourth and the sixth move touch it from two sides and each takes 1
  off \<open>busy_areas\<close> (line 337), which wraps from 0 to \<open>2^32 - 1\<close>, above \<open>areas = 1\<close>.
\<close>

theorem busy_areas_exceeds_areas:
  "reachable (after_moves (game_new 3 4 1 1)
       [(1, 0, 0), (1, 1, 0), (1, 1, 1), (1, 0, 1), (1, 2, 0), (1, 2, 1)]) \<and>
   areas (after_moves (game_new 3 4 1 1)
       [(1, 0, 0), (1, 1, 0), (1, 1, 1), (1, 0, 1), (1, 2, 0), (1, 2, 1)]) = 1 \<and>
   busy_areas (the_player (after_moves (game_new 3 4 1 1)
       [(1, 0, 0), (1, 1, 0), (1, 1, 1), (1, 0, 1), (1, 2, 0), (1, 2, 1)]) 1) = 4294967295 \<and>
   \<not> busy_areas (the_player (after_moves (game_new 3 4 1 1)
       [(1, 0, 0), (1, 1, 0), (1, 1, 1), (1, 0, 1), (1, 2, 0), (1, 2, 1)]) 1)
     \<le> areas (after_moves (game_new 3 4 1 1)
       [(1, 0, 0), (1, 1, 0), (1, 1, 1), (1, 0, 1), (1, 2, 0), (1, 2, 1)])"
proof -
  let ?ms = "[(1, 0, 0), (1, 1, 0), (1, 1, 1), (1, 0, 1), (1, 2, 0), (1, 2, 1)]
             :: (uint32_t \<times> uint32_t \<times> uint32_t) list"
  have "game_new 3 4 1 1 \<noteq> None" "\<not> isl (game_moves (the (game_new 3 4 1 1)) ?ms)"
    by code_simp+
  then have "reachable (after_moves (game_new 3 4 1 1) ?ms)"
    by (intro reachable_after_moves [OF _ _ refl])
  moreover have "areas (after_moves (game_new 3 4 1 1) ?ms) = 1"
    "busy_areas (the_player (after_moves (game_new 3 4 1 1) ?ms) 1) = 4294967295"
    "\<not> busy_areas (the_player (after_moves (game_new 3 4 1 1) ?ms) 1)
       \<le> areas (after_moves (game_new 3 4 1 1) ?ms)"
    by code_simp+
  ultimately show ?thesis by simp
qed

text \<open>
  C4 at the game that two more calls reach from there. The move to \<open>(0,3)\<close> starts an
  area: \<open>busy_areas\<close> goes from \<open>2^32 - 1\<close> to 0 and the square gets the tag 0. The move
  to \<open>(1,3)\<close>, next to it, finds only the tag 0 in \<open>neighbours\<close>, so the loop under
  \<open>adjust to existing area\<close> takes no square; the call still adds 1 to
  \<open>completed_moves\<close> and returns \<open>true\<close>. Then 8 pawns are counted, 5 squares are empty
  and the board has 12 squares.
\<close>

theorem completed_moves_without_square:
  "reachable (after_move (after_moves (game_new 3 4 1 1)
       [(1, 0, 0), (1, 1, 0), (1, 1, 1), (1, 0, 1), (1, 2, 0), (1, 2, 1), (1, 0, 3)]) 1 1 3) \<and>
   game_move (after_moves (game_new 3 4 1 1)
       [(1, 0, 0), (1, 1, 0), (1, 1, 1), (1, 0, 1), (1, 2, 0), (1, 2, 1), (1, 0, 3)]) 1 1 3 =
     Inr (True, after_move (after_moves (game_new 3 4 1 1)
       [(1, 0, 0), (1, 1, 0), (1, 1, 1), (1, 0, 1), (1, 2, 0), (1, 2, 1), (1, 0, 3)]) 1 1 3) \<and>
   cell (after_move (after_moves (game_new 3 4 1 1)
       [(1, 0, 0), (1, 1, 0), (1, 1, 1), (1, 0, 1), (1, 2, 0), (1, 2, 1), (1, 0, 3)]) 1 1 3) 1 3
     = \<lparr>player = 0, parent_id = 0\<rparr> \<and>
   placed_total (after_move (after_moves (game_new 3 4 1 1)
       [(1, 0, 0), (1, 1, 0), (1, 1, 1), (1, 0, 1), (1, 2, 0), (1, 2, 1), (1, 0, 3)]) 1 1 3) = 8 \<and>
   empty_cells (after_move (after_moves (game_new 3 4 1 1)
       [(1, 0, 0), (1, 1, 0), (1, 1, 1), (1, 0, 1), (1, 2, 0), (1, 2, 1), (1, 0, 3)]) 1 1 3) = 5 \<and>
   unat (width (after_move (after_moves (game_new 3 4 1 1)
       [(1, 0, 0), (1, 1, 0), (1, 1, 1), (1, 0, 1), (1, 2, 0), (1, 2, 1), (1, 0, 3)]) 1 1 3))
   * unat (height (after_move (after_moves (game_new 3 4 1 1)
       [(1, 0, 0), (1, 1, 0), (1, 1, 1), (1, 0, 1), (1, 2, 0), (1, 2, 1), (1, 0, 3)]) 1 1 3)) = 12"
proof -
  let ?ms = "[(1, 0, 0), (1, 1, 0), (1, 1, 1), (1, 0, 1), (1, 2, 0), (1, 2, 1), (1, 0, 3)]
             :: (uint32_t \<times> uint32_t \<times> uint32_t) list"
  let ?g = "after_moves (game_new 3 4 1 1) ?ms"
  have "game_new 3 4 1 1 \<noteq> None" "\<not> isl (game_moves (the (game_new 3 4 1 1)) ?ms)"
    by code_simp+
  then have r: "reachable ?g"
    by (intro reachable_after_moves [OF _ _ refl])
  have "\<not> isl (game_move ?g 1 1 3)" "fst (projr (game_move ?g 1 1 3))"
    by code_simp+
  then have mv: "game_move ?g 1 1 3 = Inr (True, after_move ?g 1 1 3)"
    by (rule accepted_after_move)
  from r mv have "reachable (after_move ?g 1 1 3)"
    by (rule reachable.moved)
  moreover have "cell (after_move ?g 1 1 3) 1 3 = \<lparr>player = 0, parent_id = 0\<rparr>"
    "placed_total (after_move ?g 1 1 3) = 8" "empty_cells (after_move ?g 1 1 3) = 5"
    "unat (width (after_move ?g 1 1 3)) * unat (height (after_move ?g 1 1 3)) = 12"
    by code_simp+
  ultimately show ?thesis using mv by simp
qed

text \<open>
  C6, as stated, fails at the second move of player 1 on a 3 by 3 board: after \<open>(0,0)\<close>
  the move to \<open>(0,1)\<close> is accepted, two squares next to \<open>(0,1)\<close> are empty, both other
  counts are 0 and the \<open>boundary\<close> was 2; it becomes 3, not 4, because the branch under
  \<open>adjust to existing area\<close> has taken 1 off.
\<close>

theorem game_move_ledger_counterexample:
  "game_move (after_moves (game_new 3 3 1 1) [(1, 0, 0)]) 1 0 1 =
     Inr (True, after_move (after_moves (game_new 3 3 1 1) [(1, 0, 0)]) 1 0 1) \<and>
   boundary (the_player (after_move (after_moves (game_new 3 3 1 1) [(1, 0, 0)]) 1 0 1) 1) \<noteq>
     boundary (the_player (after_moves (game_new 3 3 1 1) [(1, 0, 0)]) 1)
     + of_nat (owned_around (after_moves (game_new 3 3 1 1) [(1, 0, 0)]) 0 0 1)
     - ucast (common_free_fields (board (after_moves (game_new 3 3 1 1) [(1, 0, 0)]))
                (width (after_moves (game_new 3 3 1 1) [(1, 0, 0)]))
                (height (after_moves (game_new 3 3 1 1) [(1, 0, 0)])) 1 0 1)
     - ucast (diagonal_neighbours (after_moves (game_new 3 3 1 1) [(1, 0, 0)]) 1 0 1)"
proof -
  let ?g = "after_moves (game_new 3 3 1 1) [(1, 0, 0)]"
  have "\<not> isl (game_move ?g 1 0 1)" "fst (projr (game_move ?g 1 0 1))"
    by code_simp+
  then have mv: "game_move ?g 1 0 1 = Inr (True, after_move ?g 1 0 1)"
    by (rule accepted_after_move)
  have "boundary (the_player (after_move ?g 1 0 1) 1) = 3" "boundary (the_player ?g 1) = 2"
    "owned_around ?g 0 0 1 = 2"
    "common_free_fields (board ?g) (width ?g) (height ?g) 1 0 1 = 0"
    "diagonal_neighbours ?g 1 0 1 = 0"
    by code_simp+
  with mv show ?thesis by simp
qed

subsection \<open>The queries and the frame of a move, in numbers\<close>










text \<open>
  C8 at a reachable game on a 5 by 4 board with one area allowed. Eight accepted moves of
  player 1, to \<open>(0,0)\<close>, \<open>(1,0)\<close>, \<open>(1,1)\<close>, \<open>(0,1)\<close>, \<open>(2,0)\<close>, \<open>(2,1)\<close>, \<open>(0,3)\<close> and
  \<open>(4,3)\<close>, leave \<open>busy_areas\<close> at 1, equal to \<open>areas\<close>, and the square \<open>(0,3)\<close> with
  the tag 0. The square \<open>(1,3)\<close> is empty and next to \<open>(0,3)\<close>. The call for it returns
  \<open>true\<close>, but the loop under \<open>adjust to existing area\<close> finds no nonzero tag and sets
  no pawn: \<open>(1,3)\<close> is empty afterwards.
\<close>

theorem adjacent_move_sets_no_pawn:
  "reachable (after_moves (game_new 5 4 1 1)
     [(1, 0, 0), (1, 1, 0), (1, 1, 1), (1, 0, 1), (1, 2, 0), (1, 2, 1), (1, 0, 3), (1, 4, 3)]) \<and>
   busy_areas (the_player (after_moves (game_new 5 4 1 1)
     [(1, 0, 0), (1, 1, 0), (1, 1, 1), (1, 0, 1), (1, 2, 0), (1, 2, 1), (1, 0, 3), (1, 4, 3)]) 1)
     = areas (after_moves (game_new 5 4 1 1)
     [(1, 0, 0), (1, 1, 0), (1, 1, 1), (1, 0, 1), (1, 2, 0), (1, 2, 1), (1, 0, 3), (1, 4, 3)]) \<and>
   cell (after_moves (game_new 5 4 1 1)
     [(1, 0, 0), (1, 1, 0), (1, 1, 1), (1, 0, 1), (1, 2, 0), (1, 2, 1), (1, 0, 3), (1, 4, 3)]) 0 3
     = \<lparr>player = 1, parent_id = 0\<rparr> \<and>
   cell (after_moves (game_new 5 4 1 1)
     [(1, 0, 0), (1, 1, 0), (1, 1, 1), (1, 0, 1), (1, 2, 0), (1, 2, 1), (1, 0, 3), (1, 4, 3)]) 1 3
     = \<lparr>player = 0, parent_id = 0\<rparr> \<and>
   owned_around (after_moves (game_new 5 4 1 1)
     [(1, 0, 0), (1, 1, 0), (1, 1, 1), (1, 0, 1), (1, 2, 0), (1, 2, 1), (1, 0, 3), (1, 4, 3)]) 1 1 3
     = 1 \<and>
   game_move (after_moves (game_new 5 4 1 1)
     [(1, 0, 0), (1, 1, 0), (1, 1, 1), (1, 0, 1), (1, 2, 0), (1, 2, 1), (1, 0, 3), (1, 4, 3)]) 1 1 3
     = Inr (True, after_move (after_moves (game_new 5 4 1 1)
     [(1, 0, 0), (1, 1, 0), (1, 1, 1), (1, 0, 1), (1, 2, 0), (1, 2, 1), (1, 0, 3), (1, 4, 3)]) 1 1 3) \<and>
   cell (after_move (after_moves (game_new 5 4 1 1)
     [(1, 0, 0), (1, 1, 0), (1, 1, 1), (1, 0, 1), (1, 2, 0), (1, 2, 1), (1, 0, 3), (1, 4, 3)]) 1 1 3) 1 3
     = \<lparr>player = 0, parent_id = 0\<rparr>"
proof -
  let ?ms = "[(1, 0, 0), (1, 1, 0), (1, 1, 1), (1, 0, 1), (1, 2, 0), (1, 2, 1), (1, 0, 3), (1, 4, 3)]
      :: (uint32_t \<times> uint32_t \<times> uint32_t) list"
  let ?g = "after_moves (game_new 5 4 1 1) ?ms"
  have "game_new 5 4 1 1 \<noteq> None" "\<not> isl (game_moves (the (game_new 5 4 1 1)) ?ms)"
    by code_simp+
  then have r: "reachable ?g"
    by (intro reachable_after_moves [OF _ _ refl])
  have "\<not> isl (game_move ?g 1 1 3)" "fst (projr (game_move ?g 1 1 3))"
    by code_simp+
  then have mv: "game_move ?g 1 1 3 = Inr (True, after_move ?g 1 1 3)"
    by (rule accepted_after_move)
  have "busy_areas (the_player ?g 1) = areas ?g"
    "cell ?g 0 3 = \<lparr>player = 1, parent_id = 0\<rparr>" "cell ?g 1 3 = \<lparr>player = 0, parent_id = 0\<rparr>"
    "owned_around ?g 1 1 3 = 1"
    "cell (after_move ?g 1 1 3) 1 3 = \<lparr>player = 0, parent_id = 0\<rparr>"
    by code_simp+
  with r mv show ?thesis by simp
qed

end
